theory Spec2Isabelle
  imports Main "HOL-Library.Monad_Syntax"
begin

section \<open>The syntax highlighter of \<^verbatim>\<open>src/components/CodeBlock.tsx\<close>\<close>

text \<open>
  The component's \<^verbatim>\<open>highlightCode\<close> is a chain of \<^verbatim>\<open>String.prototype.replace\<close>
  calls with global regular expressions.  A JavaScript string is a sequence of UTF-16
  code units; a code unit is modelled by its numeric value.  No arithmetic is ever done
  on code units, so the naturals stand for them (every JavaScript string is a list of
  naturals below 65536, and every theorem below holds for all lists).
\<close>

type_synonym code_unit = nat
type_synonym jsstring = "code_unit list"

definition js :: "string \<Rightarrow> jsstring" where
  "js = map of_char"

abbreviation amp :: code_unit where "amp \<equiv> 38"
abbreviation lt :: code_unit where "lt \<equiv> 60"
abbreviation gt :: code_unit where "gt \<equiv> 62"
abbreviation dquote :: code_unit where "dquote \<equiv> 34"
abbreviation squote :: code_unit where "squote \<equiv> 39"
abbreviation slash :: code_unit where "slash \<equiv> 47"
abbreviation star :: code_unit where "star \<equiv> 42"
abbreviation backtick :: code_unit where "backtick \<equiv> 96"
abbreviation lparen :: code_unit where "lparen \<equiv> 40"
abbreviation at_sign :: code_unit where "at_sign \<equiv> 64"

subsection \<open>Character classes of the regular expressions\<close>

text \<open>\<^verbatim>\<open>\d\<close> is \<^verbatim>\<open>[0-9]\<close>; \<^verbatim>\<open>\b\<close> tests membership in \<^verbatim>\<open>[A-Za-z0-9_]\<close>.\<close>

definition is_digit :: "code_unit \<Rightarrow> bool" where
  "is_digit c = (48 \<le> c \<and> c \<le> 57)"

definition is_upper :: "code_unit \<Rightarrow> bool" where
  "is_upper c = (65 \<le> c \<and> c \<le> 90)"

definition is_lower :: "code_unit \<Rightarrow> bool" where
  "is_lower c = (97 \<le> c \<and> c \<le> 122)"

definition is_word_char :: "code_unit \<Rightarrow> bool" where
  "is_word_char c = (is_lower c \<or> is_upper c \<or> is_digit c \<or> c = 95)"

text \<open>\<^verbatim>\<open>[a-zA-Z_$]\<close> and \<^verbatim>\<open>[a-zA-Z0-9_$]\<close>.\<close>

definition is_ident_start :: "code_unit \<Rightarrow> bool" where
  "is_ident_start c = (is_lower c \<or> is_upper c \<or> c = 95 \<or> c = 36)"

definition is_ident_char :: "code_unit \<Rightarrow> bool" where
  "is_ident_char c = (is_lower c \<or> is_upper c \<or> is_digit c \<or> c = 95 \<or> c = 36)"

text \<open>The line terminators LF, CR, U+2028 and U+2029: what \<^verbatim>\<open>.\<close> refuses and where
  \<^verbatim>\<open>$\<close> holds under the \<^verbatim>\<open>m\<close> flag.\<close>

definition is_line_terminator :: "code_unit \<Rightarrow> bool" where
  "is_line_terminator c = (c = 10 \<or> c = 13 \<or> c = 8232 \<or> c = 8233)"

text \<open>\<^verbatim>\<open>\s\<close>: TAB, VT, FF, SP, NBSP, U+FEFF, the Unicode space separators and the line
  terminators.\<close>

definition is_space :: "code_unit \<Rightarrow> bool" where
  "is_space c = (c = 9 \<or> c = 11 \<or> c = 12 \<or> c = 32 \<or> c = 160 \<or> c = 5760
     \<or> (8192 \<le> c \<and> c \<le> 8202) \<or> c = 8239 \<or> c = 8287 \<or> c = 12288 \<or> c = 65279
     \<or> is_line_terminator c)"

subsection \<open>Matching at one position\<close>

text \<open>
  A regular expression is modelled by its match at one position of the subject: given
  the code unit before the position (\<open>None\<close> at the start of the subject) and the rest
  of the subject from the position on, it returns the length of the match and the text
  of capture group 1, or \<open>None\<close>.  The result is the one the backtracking matcher of
  ECMAScript finds: alternatives are tried left to right, a greedy quantifier tries the
  longest repetition first, a lazy one the shortest.
\<close>

type_synonym regexp = "code_unit option \<Rightarrow> jsstring \<Rightarrow> (nat \<times> jsstring) option"

text \<open>A greedy quantifier that can repeat at most \<open>n\<close> times: the continuation \<open>k\<close> is
  tried with \<open>n\<close> repetitions, then \<open>n - 1\<close>, down to none.\<close>

fun greedy :: "nat \<Rightarrow> (nat \<Rightarrow> 'a option) \<Rightarrow> 'a option" where
  "greedy 0 k = k 0"
| "greedy (Suc n) k = (case k (Suc n) of Some r \<Rightarrow> Some r | None \<Rightarrow> greedy n k)"

text \<open>A lazy quantifier: the continuation is tried with \<open>i\<close> repetitions, then \<open>i + 1\<close>,
  up to \<open>i + n\<close>.\<close>

fun lazy :: "nat \<Rightarrow> nat \<Rightarrow> (nat \<Rightarrow> 'a option) \<Rightarrow> 'a option" where
  "lazy 0 i k = k i"
| "lazy (Suc n) i k = (case k i of Some r \<Rightarrow> Some r | None \<Rightarrow> lazy n (Suc i) k)"

text \<open>The code unit before the position reached after \<open>n\<close> units of \<open>rest\<close>.\<close>

definition before :: "code_unit option \<Rightarrow> jsstring \<Rightarrow> nat \<Rightarrow> code_unit option" where
  "before prev rest n = (case rev (take n rest) of [] \<Rightarrow> prev | c # _ \<Rightarrow> Some c)"

text \<open>\<^verbatim>\<open>\b\<close>: exactly one of the two neighbours of the position is a word character.\<close>

definition word_before :: "code_unit option \<Rightarrow> bool" where
  "word_before prev = (case prev of None \<Rightarrow> False | Some c \<Rightarrow> is_word_char c)"

definition word_after :: "jsstring \<Rightarrow> bool" where
  "word_after rest = (case rest of [] \<Rightarrow> False | c # _ \<Rightarrow> is_word_char c)"

definition word_boundary :: "code_unit option \<Rightarrow> jsstring \<Rightarrow> bool" where
  "word_boundary prev rest = (word_before prev \<noteq> word_after rest)"

text \<open>Whether \<^verbatim>\<open>[^<]*>\<close> matches at the start of \<open>rest\<close>: a \<^verbatim>\<open>>\<close> is reached before
  any \<^verbatim>\<open><\<close>.  The guard \<^verbatim>\<open>(?![^<]*>)\<close> of the later passes is its negation.\<close>

fun tag_ahead :: "jsstring \<Rightarrow> bool" where
  "tag_ahead [] = False"
| "tag_ahead (c # cs) = (if c = gt then True else if c = lt then False else tag_ahead cs)"

text \<open>Whether the literal text \<open>w\<close> matches at the start of the subject: its units are
  compared one by one.\<close>

fun starts_with :: "jsstring \<Rightarrow> jsstring \<Rightarrow> bool" where
  "starts_with [] s = True"
| "starts_with (a # w) [] = False"
| "starts_with (a # w) (c # s) = (if a = c then starts_with w s else False)"

subsection \<open>The regular expressions of the source\<close>

text \<open>\<^verbatim>\<open>/[&<>"'/]/g\<close> of \<^verbatim>\<open>escapeHtml\<close>; it has no capture group.\<close>

definition escape_re :: regexp where
  "escape_re prev rest =
     (case rest of
        [] \<Rightarrow> None
      | c # _ \<Rightarrow> if c \<in> set [amp, lt, gt, dquote, squote, slash] then Some (1, []) else None)"

text \<open>\<^verbatim>\<open>/(\/\/.*$)/gm\<close>.\<close>

definition at_line_end :: "jsstring \<Rightarrow> bool" where
  "at_line_end rest = (case rest of [] \<Rightarrow> True | c # _ \<Rightarrow> is_line_terminator c)"

definition line_comment_re :: regexp where
  "line_comment_re prev rest =
     (if starts_with [slash, slash] rest
      then greedy (length (takeWhile (\<lambda>c. \<not> is_line_terminator c) (drop 2 rest)))
             (\<lambda>k. if at_line_end (drop (2 + k) rest)
                  then Some (2 + k, take (2 + k) rest) else None)
      else None)"

text \<open>\<^verbatim>\<open>/(\/\*[\s\S]*?\*\/)/g\<close>.\<close>

definition block_comment_re :: regexp where
  "block_comment_re prev rest =
     (if starts_with [slash, star] rest
      then lazy (length rest - 2) 0
             (\<lambda>k. if starts_with [star, slash] (drop (2 + k) rest)
                  then Some (2 + k + 2, take (2 + k + 2) rest) else None)
      else None)"

text \<open>One alternative of the string expression: an opening delimiter, a greedy run of
  units of a class, the closing delimiter.\<close>

definition delimited :: "jsstring \<Rightarrow> (code_unit \<Rightarrow> bool) \<Rightarrow> jsstring \<Rightarrow> jsstring \<Rightarrow> nat option" where
  "delimited opening inner closing rest =
     (if starts_with opening rest
      then greedy (length (takeWhile inner (drop (length opening) rest)))
             (\<lambda>k. if starts_with closing (drop (length opening + k) rest)
                  then Some (length opening + k + length closing) else None)
      else None)"

text \<open>\<^verbatim>\<open>/(&quot;[^&]*&quot;|&#x27;[^&]*&#x27;|`[^`]*`)/g\<close>.\<close>

definition string_re :: regexp where
  "string_re prev rest =
     (case delimited (js ''&quot;'') (\<lambda>c. c \<noteq> amp) (js ''&quot;'') rest of
        Some n \<Rightarrow> Some (n, take n rest)
      | None \<Rightarrow>
     (case delimited (js ''&#x27;'') (\<lambda>c. c \<noteq> amp) (js ''&#x27;'') rest of
        Some n \<Rightarrow> Some (n, take n rest)
      | None \<Rightarrow>
     (case delimited [backtick] (\<lambda>c. c \<noteq> backtick) [backtick] rest of
        Some n \<Rightarrow> Some (n, take n rest)
      | None \<Rightarrow> None)))"

text \<open>The tail \<^verbatim>\<open>\b(?![^<]*>)\<close> of the guarded expressions, at the position \<open>n\<close> units into
  \<open>rest\<close>.\<close>

definition word_end :: "code_unit option \<Rightarrow> jsstring \<Rightarrow> nat \<Rightarrow> bool" where
  "word_end prev rest n =
     (if word_boundary (before prev rest n) (drop n rest)
      then \<not> tag_ahead (drop n rest) else False)"

text \<open>The alternation of a word list: the words are tried in the order of the list;
  a word that the subject starts with is followed by the rest of the expression \<open>k\<close>,
  and the next word is tried when that fails.\<close>

fun alternatives :: "jsstring list \<Rightarrow> jsstring \<Rightarrow> (jsstring \<Rightarrow> 'a option) \<Rightarrow> 'a option" where
  "alternatives [] rest k = None"
| "alternatives (w # ws) rest k =
     (case (if starts_with w rest then k w else None) of
        Some r \<Rightarrow> Some r
      | None \<Rightarrow> alternatives ws rest k)"

text \<open>\<^verbatim>\<open>new RegExp(`\\b(${words.join('|')})\\b(?![^<]*>)`, 'g')\<close>.\<close>

definition word_list_re :: "jsstring list \<Rightarrow> regexp" where
  "word_list_re ws prev rest =
     (if word_boundary prev rest
      then alternatives ws rest
             (\<lambda>w. if word_end prev rest (length w) then Some (length w, w) else None)
      else None)"

definition keywords_list :: "jsstring list" where
  "keywords_list = map js
     [''class'', ''constructor'', ''extends'', ''implements'', ''interface'', ''function'',
      ''const'', ''let'', ''var'', ''if'', ''else'', ''return'', ''new'', ''this'', ''super'',
      ''import'', ''export'', ''from'', ''async'', ''await'', ''try'', ''catch'', ''throw'',
      ''public'', ''private'', ''protected'', ''static'', ''readonly'', ''type'', ''namespace'',
      ''enum'', ''abstract'', ''as'', ''break'', ''case'', ''continue'', ''debugger'', ''default'',
      ''delete'', ''do'', ''finally'', ''for'', ''in'', ''instanceof'', ''switch'', ''typeof'',
      ''void'', ''while'', ''with'', ''yield'']"

definition types :: "jsstring list" where
  "types = map js
     [''string'', ''number'', ''boolean'', ''any'', ''void'', ''never'', ''unknown'', ''object'',
      ''symbol'', ''null'', ''undefined'', ''true'', ''false'', ''Array'', ''Object'', ''Promise'',
      ''Map'', ''Set'', ''Date'', ''RegExp'', ''Error'', ''JSON'', ''Math'', ''console'']"

definition keywordRegex :: regexp where
  "keywordRegex = word_list_re keywords_list"

definition typeRegex :: regexp where
  "typeRegex = word_list_re types"

text \<open>\<^verbatim>\<open>/\b(\d+)\b(?![^<]*>)/g\<close> and \<^verbatim>\<open>/\b([A-Z][a-zA-Z0-9_$]*)\b(?![^<]*>)/g\<close> have one
  shape: a word boundary, one unit of a class, a greedy run of a class, a word boundary
  and the guard.\<close>

definition token_re :: "(code_unit \<Rightarrow> bool) \<Rightarrow> (code_unit \<Rightarrow> bool) \<Rightarrow> regexp" where
  "token_re leading following prev rest =
     (if word_boundary prev rest
      then (case rest of
              [] \<Rightarrow> None
            | c # cs \<Rightarrow>
                if leading c
                then greedy (length (takeWhile following cs))
                       (\<lambda>k. if word_end prev rest (Suc k)
                            then Some (Suc k, take (Suc k) rest) else None)
                else None)
      else None)"

definition number_re :: regexp where
  "number_re = token_re is_digit is_digit"

definition class_name_re :: regexp where
  "class_name_re = token_re is_upper is_ident_char"

text \<open>\<^verbatim>\<open>/\b([a-zA-Z_$][a-zA-Z0-9_$]*)\s*\((?![^<]*>)/g\<close>: the match runs over the
  identifier, the white space and the parenthesis; group 1 is the identifier alone.\<close>

definition function_re :: regexp where
  "function_re prev rest =
     (if word_boundary prev rest
      then (case rest of
              [] \<Rightarrow> None
            | c # cs \<Rightarrow>
                if is_ident_start c
                then greedy (length (takeWhile is_ident_char cs))
                       (\<lambda>i. greedy (length (takeWhile is_space (drop (Suc i) rest)))
                          (\<lambda>w. case drop (Suc i + w) rest of
                                 [] \<Rightarrow> None
                               | p # after \<Rightarrow>
                                   if p = lparen
                                   then if tag_ahead after then None
                                        else Some (Suc i + w + 1, take (Suc i) rest)
                                   else None))
                else None)
      else None)"

text \<open>\<^verbatim>\<open>/(@[a-zA-Z_$][a-zA-Z0-9_$]*)(?![^<]*>)/g\<close>.\<close>

definition decorator_re :: regexp where
  "decorator_re prev rest =
     (case rest of
        a # c # cs \<Rightarrow>
          if a = at_sign
          then if is_ident_start c
               then greedy (length (takeWhile is_ident_char cs))
                      (\<lambda>k. if tag_ahead (drop (2 + k) rest) then None
                           else Some (2 + k, take (2 + k) rest))
               else None
          else None
      | _ \<Rightarrow> None)"

subsection \<open>\<^verbatim>\<open>String.prototype.replace\<close> with a global regular expression\<close>

text \<open>
  The subject is scanned from the left.  At a position where the expression matches,
  the replacer's text for the match is emitted and the scan resumes behind the match
  (behind the next code unit when the match is empty, which is copied); elsewhere the
  code unit is copied.  Matches are looked for in the subject, never in replaced text.
  The replacer receives the matched text and capture group 1.
\<close>

function replace_global ::
  "regexp \<Rightarrow> (jsstring \<Rightarrow> jsstring \<Rightarrow> jsstring) \<Rightarrow> code_unit option \<Rightarrow> jsstring \<Rightarrow> jsstring" where
  "replace_global re f prev [] =
     (case re prev [] of Some (n, g) \<Rightarrow> f [] g | None \<Rightarrow> [])"
| "replace_global re f prev (c # cs) =
     (case re prev (c # cs) of
        None \<Rightarrow> c # replace_global re f (Some c) cs
      | Some (n, g) \<Rightarrow>
          if n = 0 then f [] g @ c # replace_global re f (Some c) cs
          else f (take n (c # cs)) g
                 @ replace_global re f (before prev (c # cs) n) (drop n (c # cs)))"
  by pat_completeness auto
termination
  by (relation "measure (\<lambda>(re, f, prev, s). length s)") auto

subsection \<open>\<^verbatim>\<open>escapeHtml\<close>\<close>

definition htmlEntities :: "(jsstring \<times> jsstring) list" where
  "htmlEntities =
     [([amp], js ''&amp;''),
      ([lt], js ''&lt;''),
      ([gt], js ''&gt;''),
      ([dquote], js ''&quot;''),
      ([squote], js ''&#x27;''),
      ([slash], js ''&#x2F;'')]"

text \<open>The replacer \<^verbatim>\<open>(match) => htmlEntities[match]\<close>; a missing key would give
  \<^verbatim>\<open>undefined\<close>, which \<^verbatim>\<open>replace\<close> converts to the string \<^verbatim>\<open>undefined\<close>.\<close>

definition entity_of :: "jsstring \<Rightarrow> jsstring \<Rightarrow> jsstring" where
  "entity_of m g = (case map_of htmlEntities m of Some e \<Rightarrow> e | None \<Rightarrow> js ''undefined'')"

definition escapeHtml :: "jsstring \<Rightarrow> jsstring" where
  "escapeHtml text = replace_global escape_re entity_of None text"

subsection \<open>\<^verbatim>\<open>highlightCode\<close>\<close>

text \<open>The replacement template \<^verbatim>\<open><span class="CLS">$1</span>\<close>, followed by \<open>tail\<close>
  (the parenthesis of the function-name pass).\<close>

definition span_open :: "jsstring \<Rightarrow> jsstring" where
  "span_open cls = js ''<span class='' @ [dquote] @ cls @ [dquote] @ js ''>''"

definition span_close :: jsstring where
  "span_close = js ''</span>''"

definition span :: "jsstring \<Rightarrow> jsstring \<Rightarrow> jsstring \<Rightarrow> jsstring \<Rightarrow> jsstring" where
  "span cls tail m g = span_open cls @ g @ span_close @ tail"

definition highlightCode :: "jsstring \<Rightarrow> jsstring" where
  "highlightCode code =
     (let highlighted = escapeHtml code;
          highlighted = replace_global line_comment_re
                          (span (js ''text-gray-500 italic'') []) None highlighted;
          highlighted = replace_global block_comment_re
                          (span (js ''text-gray-500 italic'') []) None highlighted;
          highlighted = replace_global string_re
                          (span (js ''text-green-400'') []) None highlighted;
          highlighted = replace_global keywordRegex
                          (span (js ''text-purple-400'') []) None highlighted;
          highlighted = replace_global typeRegex
                          (span (js ''text-cyan-400'') []) None highlighted;
          highlighted = replace_global number_re
                          (span (js ''text-orange-400'') []) None highlighted;
          highlighted = replace_global function_re
                          (span (js ''text-yellow-400'') [lparen]) None highlighted;
          highlighted = replace_global class_name_re
                          (span (js ''text-blue-400'') []) None highlighted;
          highlighted = replace_global decorator_re
                          (span (js ''text-pink-400'') []) None highlighted
      in highlighted)"

subsection \<open>The same calls, as the loop of the engine\<close>







section \<open>Reading the output\<close>

subsection \<open>The tag tokens\<close>

text \<open>The \<^verbatim>\<open>class\<close> attributes of the eight categories (comment, string, keyword, type,
  number, function name, class name, decorator), the opening tags the templates of
  \<open>highlightCode\<close> insert, and all tag tokens: the closing tag and the opening ones.\<close>

definition categories :: "jsstring list" where
  "categories = map js
     [''text-gray-500 italic'', ''text-green-400'', ''text-purple-400'', ''text-cyan-400'',
      ''text-orange-400'', ''text-yellow-400'', ''text-blue-400'', ''text-pink-400'']"

definition open_tags :: "jsstring list" where
  "open_tags = map span_open categories"

definition tag_tokens :: "jsstring list" where
  "tag_tokens = span_close # open_tags"

text \<open>
  Well-formed markup, read from the left with the number \<open>d\<close> of spans that are open:
  a code unit other than \<^verbatim>\<open><\<close> and \<^verbatim>\<open>>\<close> is text; an angle bracket may only stand in
  a tag token; an opening tag opens a span, the closing tag closes one that is open; at
  the end no span is open.  All closing tags are alike, so this is being balanced and
  properly nested.
\<close>

inductive balanced :: "nat \<Rightarrow> jsstring \<Rightarrow> bool" where
  bal_end: "balanced 0 []"
| bal_unit: "c \<noteq> lt \<Longrightarrow> c \<noteq> gt \<Longrightarrow> balanced d s \<Longrightarrow> balanced d (c # s)"
| bal_open: "t \<in> set open_tags \<Longrightarrow> balanced (Suc d) s \<Longrightarrow> balanced d (t @ s)"
| bal_close: "balanced d s \<Longrightarrow> balanced (Suc d) (span_close @ s)"

text \<open>Removing the tag tokens, and nothing else, from a text.\<close>

function strip_tags :: "jsstring \<Rightarrow> jsstring" where
  "strip_tags [] = []"
| "strip_tags (c # s) =
     (case find (\<lambda>t. starts_with t (c # s)) tag_tokens of
        Some t \<Rightarrow> strip_tags (drop (length t) (c # s))
      | None \<Rightarrow> c # strip_tags s)"
  by pat_completeness auto
termination
proof (relation "measure length")
  fix c s t
  assume "find (\<lambda>t. starts_with t (c # s)) tag_tokens = Some t"
  then have "t \<in> set tag_tokens" by (auto simp: find_Some_iff)
  then have "t \<noteq> []"
    by (auto simp: tag_tokens_def open_tags_def span_open_def span_close_def js_def)
  then show "(drop (length t) (c # s), c # s) \<in> measure length" by simp
qed simp_all

text \<open>The inverse decode of the round-trip property: an escape sequence of
  \<open>htmlEntities\<close> at the start of the text is replaced by the character it stands for.\<close>

function decodeHtml :: "jsstring \<Rightarrow> jsstring" where
  "decodeHtml [] = []"
| "decodeHtml (c # s) =
     (case find (\<lambda>(k, e). starts_with e (c # s)) htmlEntities of
        Some (k, e) \<Rightarrow> k @ decodeHtml (drop (length e) (c # s))
      | None \<Rightarrow> c # decodeHtml s)"
  by pat_completeness auto
termination
proof (relation "measure length")
  fix c s x k e
  assume "find (\<lambda>(k, e). starts_with e (c # s)) htmlEntities = Some x" "(k, e) = x"
  then have "(k, e) \<in> set htmlEntities" by (metis find_Some_iff nth_mem)
  then have "e \<noteq> []" by (auto simp: htmlEntities_def js_def)
  then show "(drop (length e) (c # s), c # s) \<in> measure length" by simp
qed simp_all

subsection \<open>Stages of \<open>highlightCode\<close>\<close>

text \<open>The two comment calls of \<open>highlightCode\<close>, single-line then block, and its string
  call, as functions of the text they are given.\<close>

definition comment_pass :: "jsstring \<Rightarrow> jsstring" where
  "comment_pass s =
     replace_global block_comment_re (span (js ''text-gray-500 italic'') []) None
       (replace_global line_comment_re (span (js ''text-gray-500 italic'') []) None s)"

definition string_pass :: "jsstring \<Rightarrow> jsstring" where
  "string_pass = replace_global string_re (span (js ''text-green-400'') []) None"

text \<open>The expressions that carry the guard \<^verbatim>\<open>(?![^<]*>)\<close>.\<close>

definition guarded_passes :: "regexp list" where
  "guarded_passes = [keywordRegex, typeRegex, number_re, function_re, class_name_re, decorator_re]"

text \<open>
  Whether the scan of \<open>replace_global\<close> over \<open>s\<close> comes to the position \<open>k\<close> units into
  \<open>s\<close> and tries the expression there: it does not when the position lies inside a
  match that began before it.
\<close>

function reaches :: "regexp \<Rightarrow> code_unit option \<Rightarrow> jsstring \<Rightarrow> nat \<Rightarrow> bool" where
  "reaches re prev s 0 = True"
| "reaches re prev [] (Suc k) = False"
| "reaches re prev (c # cs) (Suc k) =
     (case re prev (c # cs) of
        None \<Rightarrow> reaches re (Some c) cs k
      | Some (n, g) \<Rightarrow>
          if n = 0 then reaches re (Some c) cs k
          else if n \<le> Suc k
               then reaches re (before prev (c # cs) n) (drop n (c # cs)) (Suc k - n)
               else False)"
  by pat_completeness auto
termination
  by (relation "measure (\<lambda>(re, prev, s, k). k)") auto

section \<open>The pipeline in the words of the specification\<close>

text \<open>
  Section 4.1 of the specification gives the highlighter as nine ordered passes, each
  ``a blind text substitution over the entire string''.  They are written here from its
  sentences, as a second pipeline to set against \<open>highlightCode\<close>.  Where the
  specification leaves a detail to the source (the escape sequences, the two
  vocabularies, the characters of an identifier, the \<^verbatim>\<open>class\<close> attribute of a category),
  the source's is taken.
\<close>























section \<open>Properties of the matchers\<close>

subsection \<open>Auxiliary notions\<close>

text \<open>The characters \<open>escapeHtml\<close> replaces, and what it writes for one code unit.\<close>

definition is_special :: "code_unit \<Rightarrow> bool" where
  "is_special c = (c \<in> set [amp, lt, gt, dquote, squote, slash])"

definition escape_unit :: "code_unit \<Rightarrow> jsstring" where
  "escape_unit c = (if is_special c then entity_of [c] [] else [c])"

text \<open>A code unit that is no angle bracket.\<close>

definition plain :: "code_unit \<Rightarrow> bool" where
  "plain c = (c \<noteq> lt \<and> c \<noteq> gt)"

text \<open>
  What the guard gives: a match is not empty, lies within the subject, contains no
  angle bracket, and no \<^verbatim>\<open>>\<close> follows it before the next \<^verbatim>\<open><\<close>.  A replacer wraps
  group 1 in an opening tag and the closing tag, followed by text without angle
  brackets.  An expression without the guard at least matches within the subject, group
  1 being the whole match.
\<close>

definition guarded :: "regexp \<Rightarrow> bool" where
  "guarded re = (\<forall>prev rest n g. re prev rest = Some (n, g) \<longrightarrow>
      0 < n \<and> n \<le> length rest \<and> list_all plain (take n rest)
      \<and> \<not> tag_ahead (drop n rest) \<and> list_all plain g)"

definition wrapper :: "(jsstring \<Rightarrow> jsstring \<Rightarrow> jsstring) \<Rightarrow> bool" where
  "wrapper f = (\<exists>t\<in>set open_tags. \<exists>tail. list_all plain tail \<and> (\<forall>m g. f m g = t @ g @ span_close @ tail))"

definition sound :: "regexp \<Rightarrow> bool" where
  "sound re = (\<forall>prev rest n g. re prev rest = Some (n, g) \<longrightarrow>
      0 < n \<and> n \<le> length rest \<and> g = take n rest)"


text \<open>The match of a word-list expression at the start of a word \<open>w\<close>.\<close>

definition whole_word :: "jsstring list \<Rightarrow> jsstring \<Rightarrow> jsstring \<Rightarrow> (nat \<times> jsstring) option" where
  "whole_word ws w rest =
     (if w \<in> set ws
      then if tag_ahead (drop (length w) rest) then None else Some (length w, w)
      else None)"

subsection \<open>Backtracking\<close>

lemma find_SomeD: "find P xs = Some x \<Longrightarrow> x \<in> set xs \<and> P x"
  by (induction xs) (auto split: if_splits)

lemma starts_with_iff: "starts_with w s \<longleftrightarrow> take (length w) s = w \<and> length w \<le> length s"
  by (induction w s rule: starts_with.induct) auto

lemma starts_with_append: "starts_with w (w @ s)"
  by (simp add: starts_with_iff)

lemma starts_withD: "starts_with w s \<Longrightarrow> s = w @ drop (length w) s"
  by (metis append_take_drop_id starts_with_iff)

lemma greedy_SomeD: "greedy n k = Some r \<Longrightarrow> \<exists>i\<le>n. k i = Some r"
  by (induction n) (auto split: option.splits intro: le_SucI)

lemma greedy_None: "(\<And>i. i \<le> n \<Longrightarrow> k i = None) \<Longrightarrow> greedy n k = None"
  by (induction n) (auto split: option.splits)


lemma alternatives_SomeD:
  "alternatives ws rest k = Some r \<Longrightarrow> \<exists>w\<in>set ws. starts_with w rest \<and> k w = Some r"
  by (induction ws) (auto split: option.splits if_splits)

subsection \<open>The escaped text\<close>

lemma replace_escape: "replace_global escape_re entity_of prev s = concat (map escape_unit s)"
  by (induction s arbitrary: prev)
     (auto simp: escape_re_def escape_unit_def is_special_def)

lemma escapeHtml_concat: "escapeHtml s = concat (map escape_unit s)"
  by (simp add: escapeHtml_def replace_escape)

lemma escapeHtml_append: "escapeHtml (a @ b) = escapeHtml a @ escapeHtml b"
  by (simp add: escapeHtml_concat)

lemma escape_unit_set: "x \<in> set (escape_unit c) \<Longrightarrow> x \<noteq> lt \<and> x \<noteq> gt \<and> x \<noteq> slash \<and> x \<noteq> dquote \<and> x \<noteq> squote"
  by (auto simp: escape_unit_def is_special_def entity_of_def htmlEntities_def js_def split: if_splits)

lemma escapeHtml_set: "x \<in> set (escapeHtml s) \<Longrightarrow> x \<noteq> lt \<and> x \<noteq> gt \<and> x \<noteq> slash \<and> x \<noteq> dquote \<and> x \<noteq> squote"
  unfolding escapeHtml_concat using escape_unit_set by auto

subsection \<open>Passes that cannot match\<close>

lemma replace_none:
  "(\<And>p c r. c \<in> set s \<Longrightarrow> re p (c # r) = None) \<Longrightarrow> (\<And>p. re p [] = None) \<Longrightarrow> replace_global re f prev s = s"
proof (induction s arbitrary: prev)
  case Nil then show ?case by simp
next
  case (Cons c s)
  have "re prev (c # s) = None" using Cons.prems(1)[of c prev s] by simp
  moreover have "replace_global re f (Some c) s = s"
    apply (rule Cons.IH) using Cons.prems by auto
  ultimately show ?case by simp
qed

subsection \<open>The guarded expressions\<close>

lemma guardedD:
  assumes "guarded re" "re prev rest = Some (n, g)"
  shows "0 < n" "n \<le> length rest" "list_all plain (take n rest)" "\<not> tag_ahead (drop n rest)" "list_all plain g"
  using assms unfolding guarded_def by blast+

lemma takeWhile_take: "k \<le> length (takeWhile P xs) \<Longrightarrow> list_all P (take k xs) \<and> k \<le> length xs"
proof (induction xs arbitrary: k)
  case Nil then show ?case by simp
next
  case (Cons x xs)
  then show ?case by (cases k) (auto split: if_splits)
qed

lemma plain_classes:
  "is_digit c \<Longrightarrow> plain c" "is_upper c \<Longrightarrow> plain c" "is_ident_char c \<Longrightarrow> plain c"
  "is_ident_start c \<Longrightarrow> plain c" "is_space c \<Longrightarrow> plain c" "is_word_char c \<Longrightarrow> plain c"
  by (auto simp: plain_def is_digit_def is_upper_def is_lower_def is_ident_char_def is_ident_start_def
      is_space_def is_line_terminator_def is_word_char_def)

lemma list_all_mono: "list_all P xs \<Longrightarrow> (\<And>x. P x \<Longrightarrow> Q x) \<Longrightarrow> list_all Q xs"
  by (induction xs) auto

lemma guarded_token_re:
  assumes "\<And>c. leading c \<Longrightarrow> plain c" "\<And>c. following c \<Longrightarrow> plain c"
  shows "guarded (token_re leading following)"
  unfolding guarded_def
proof (intro allI impI)
  fix prev rest n g
  assume m: "token_re leading following prev rest = Some (n, g)"
  then obtain c cs where rest: "rest = c # cs" and c: "leading c"
    by (auto simp: token_re_def split: if_splits list.splits)
  from m rest c have "greedy (length (takeWhile following cs))
         (\<lambda>k. if word_end prev rest (Suc k) then Some (Suc k, take (Suc k) rest) else None) = Some (n, g)"
    by (auto simp: token_re_def split: if_splits)
  from greedy_SomeD[OF this] obtain k where k: "k \<le> length (takeWhile following cs)"
    and e: "word_end prev rest (Suc k)" and n: "n = Suc k" and g: "g = take (Suc k) rest"
    by (auto split: if_splits)
  from takeWhile_take[OF k] have "list_all following (take k cs)" "k \<le> length cs" by auto
  then have "list_all plain (take k cs)" using assms(2) list_all_mono by blast
  with c assms(1) have p: "list_all plain (take n rest)" by (simp add: n rest)
  from e have "\<not> tag_ahead (drop n rest)" by (auto simp: word_end_def n split: if_splits)
  with p g n rest \<open>k \<le> length cs\<close>
  show "0 < n \<and> n \<le> length rest \<and> list_all plain (take n rest) \<and> \<not> tag_ahead (drop n rest) \<and> list_all plain g"
    by auto
qed

lemma guarded_number_re: "guarded number_re"
  unfolding number_re_def by (rule guarded_token_re) (auto intro: plain_classes)

lemma guarded_class_name_re: "guarded class_name_re"
  unfolding class_name_re_def by (rule guarded_token_re) (auto intro: plain_classes)

lemma guarded_word_list_re:
  assumes "list_all (\<lambda>w. w \<noteq> [] \<and> list_all plain w) ws"
  shows "guarded (word_list_re ws)"
  unfolding guarded_def
proof (intro allI impI)
  fix prev rest n g
  assume m: "word_list_re ws prev rest = Some (n, g)"
  then have "alternatives ws rest
             (\<lambda>w. if word_end prev rest (length w) then Some (length w, w) else None) = Some (n, g)"
    by (auto simp: word_list_re_def split: if_splits)
  from alternatives_SomeD[OF this] obtain w where w: "w \<in> set ws" "starts_with w rest"
    and e: "word_end prev rest (length w)" and n: "n = length w" and g: "g = w"
    by (auto split: if_splits)
  from assms w(1) have w0: "w \<noteq> []" "list_all plain w" by (auto simp: list_all_iff)
  from w(2) have t: "take (length w) rest = w" "length w \<le> length rest" by (auto simp: starts_with_iff)
  from e have "\<not> tag_ahead (drop n rest)" by (auto simp: word_end_def n split: if_splits)
  with w0 t n g
  show "0 < n \<and> n \<le> length rest \<and> list_all plain (take n rest) \<and> \<not> tag_ahead (drop n rest) \<and> list_all plain g"
    by auto
qed

lemma keywords_plain: "list_all (\<lambda>w. w \<noteq> [] \<and> list_all plain w) keywords_list"
  by (simp add: keywords_list_def js_def plain_def)

lemma types_plain: "list_all (\<lambda>w. w \<noteq> [] \<and> list_all plain w) types"
  by (simp add: types_def js_def plain_def)

lemma guarded_keywordRegex: "guarded keywordRegex"
  unfolding keywordRegex_def by (rule guarded_word_list_re[OF keywords_plain])

lemma guarded_typeRegex: "guarded typeRegex"
  unfolding typeRegex_def by (rule guarded_word_list_re[OF types_plain])

lemma guarded_decorator_re: "guarded decorator_re"
  unfolding guarded_def
proof (intro allI impI)
  fix prev rest n g
  assume m: "decorator_re prev rest = Some (n, g)"
  then obtain a c cs where rest: "rest = a # c # cs" and a: "a = at_sign" and c: "is_ident_start c"
    by (auto simp: decorator_re_def split: if_splits list.splits)
  from m rest a c have "greedy (length (takeWhile is_ident_char cs))
          (\<lambda>k. if tag_ahead (drop (2 + k) rest) then None else Some (2 + k, take (2 + k) rest)) = Some (n, g)"
    by (auto simp: decorator_re_def split: if_splits)
  from greedy_SomeD[OF this] obtain k where k: "k \<le> length (takeWhile is_ident_char cs)"
    and e: "\<not> tag_ahead (drop (2 + k) rest)" and n: "n = 2 + k" and g: "g = take (2 + k) rest"
    by (auto split: if_splits)
  from takeWhile_take[OF k] have "list_all is_ident_char (take k cs)" "k \<le> length cs" by auto
  then have "list_all plain (take k cs)" using plain_classes(3) list_all_mono by blast
  with c a plain_classes(4) have p: "list_all plain (take n rest)" by (simp add: n rest plain_def)
  with e g n rest \<open>k \<le> length cs\<close>
  show "0 < n \<and> n \<le> length rest \<and> list_all plain (take n rest) \<and> \<not> tag_ahead (drop n rest) \<and> list_all plain g"
    by auto
qed

lemma guarded_function_re: "guarded function_re"
  unfolding guarded_def
proof (intro allI impI)
  fix prev rest n g
  assume m: "function_re prev rest = Some (n, g)"
  then obtain c cs where rest: "rest = c # cs" and c: "is_ident_start c"
    by (auto simp: function_re_def split: if_splits list.splits)
  let ?k = "\<lambda>i w. case drop (Suc i + w) rest of
                     [] \<Rightarrow> None
                   | p # after \<Rightarrow>
                       if p = lparen
                       then if tag_ahead after then None
                            else Some (Suc i + w + 1, take (Suc i) rest)
                       else None"
  from m rest c have "greedy (length (takeWhile is_ident_char cs))
      (\<lambda>i. greedy (length (takeWhile is_space (drop (Suc i) rest))) (?k i)) = Some (n, g)"
    by (auto simp: function_re_def split: if_splits)
  from greedy_SomeD[OF this] obtain i where i: "i \<le> length (takeWhile is_ident_char cs)"
    and "greedy (length (takeWhile is_space (drop (Suc i) rest))) (?k i) = Some (n, g)"
    by blast
  from greedy_SomeD[OF this(2)] obtain w where w: "w \<le> length (takeWhile is_space (drop (Suc i) rest))"
    and kw: "?k i w = Some (n, g)"
    by blast
  from kw obtain after where d: "drop (Suc i + w) rest = lparen # after"
    and t: "\<not> tag_ahead after" and n: "n = Suc i + w + 1" and g: "g = take (Suc i) rest"
    by (auto split: list.splits if_splits)
  from d have d': "drop (Suc (i + w)) rest = lparen # after" by simp
  from takeWhile_take[OF i] have ic: "list_all is_ident_char (take i cs)" "i \<le> length cs" by auto
  from takeWhile_take[OF w] have sp: "list_all is_space (take w (drop (Suc i) rest))" by auto
  have len: "n \<le> length rest"
  proof (rule ccontr)
    assume "\<not> n \<le> length rest"
    then have "drop (Suc i + w) rest = []" by (simp add: n)
    with d show False by simp
  qed
  have dn: "drop n rest = after"
  proof -
    have "drop n rest = drop 1 (drop (Suc i + w) rest)" by (simp add: n)
    also have "\<dots> = drop 1 (lparen # after)" by (simp only: d)
    finally show ?thesis by simp
  qed
  have split: "take n rest = take (Suc i) rest @ take w (drop (Suc i) rest) @ [lparen]"
  proof -
    have "take n rest = take (Suc i + w) rest @ take 1 (drop (Suc i + w) rest)"
      unfolding n by (simp only: take_add)
    also have "take (Suc i + w) rest = take (Suc i) rest @ take w (drop (Suc i) rest)"
      by (simp only: take_add)
    finally show ?thesis by (simp add: d')
  qed
  have p1: "list_all plain (take (Suc i) rest)"
    using ic(1) c plain_classes(3,4) by (auto simp: rest intro: list_all_mono)
  have p2: "list_all plain (take w (drop (Suc i) rest))"
    using sp plain_classes(5) list_all_mono by blast
  have "list_all plain (take n rest)"
    unfolding split using p1 p2 by (simp add: plain_def)
  with len dn t g p1 n
  show "0 < n \<and> n \<le> length rest \<and> list_all plain (take n rest) \<and> \<not> tag_ahead (drop n rest) \<and> list_all plain g"
    by simp
qed

subsection \<open>Tags are copied\<close>

lemma tag_ahead_plain_gt: "list_all plain v \<Longrightarrow> tag_ahead (v @ gt # r)"
  by (induction v) (auto simp: plain_def)

lemma guarded_inside_tag:
  assumes "guarded re" "list_all plain u"
  shows "re prev (u @ gt # rest) = None"
proof (rule ccontr)
  assume "re prev (u @ gt # rest) \<noteq> None"
  then obtain n g where m: "re prev (u @ gt # rest) = Some (n, g)" by auto
  note G = guardedD[OF assms(1) m]
  show False
  proof (cases "n \<le> length u")
    case True
    then have "drop n (u @ gt # rest) = drop n u @ gt # rest" by simp
    moreover have "list_all plain (drop n u)" using assms(2) by (simp add: list_all_iff) (meson in_set_dropD)
    ultimately have "tag_ahead (drop n (u @ gt # rest))" using tag_ahead_plain_gt by simp
    with G(4) show False by simp
  next
    case False
    then have eq: "take n (u @ gt # rest) = u @ gt # take (n - Suc (length u)) rest"
      by (simp add: take_Cons')
    have "list_all plain (u @ gt # take (n - Suc (length u)) rest)"
      using G(3) unfolding eq .
    then show False by (simp add: plain_def)
  qed
qed

lemma guarded_at_lt:
  assumes "guarded re"
  shows "re prev (lt # rest) = None"
proof (rule ccontr)
  assume "re prev (lt # rest) \<noteq> None"
  then obtain n g where m: "re prev (lt # rest) = Some (n, g)" by auto
  note G = guardedD[OF assms(1) m]
  from G(1) obtain k where "n = Suc k" by (cases n) auto
  with G(3) show False by (simp add: plain_def)
qed

lemma replace_skip_inside:
  assumes "guarded re"
  shows "list_all plain u \<Longrightarrow>
    replace_global re f prev (u @ gt # rest) = u @ gt # replace_global re f (Some gt) rest"
proof (induction u arbitrary: prev)
  case Nil
  have "re prev (gt # rest) = None" using guarded_inside_tag[OF assms, of "[]"] by simp
  then show ?case by simp
next
  case (Cons c u)
  have "re prev ((c # u) @ gt # rest) = None" using guarded_inside_tag[OF assms Cons.prems] .
  moreover have "list_all plain u" using Cons.prems by simp
  ultimately show ?case using Cons.IH by simp
qed

lemma tag_token_shape:
  "t \<in> set tag_tokens \<Longrightarrow> \<exists>b. t = lt # b @ [gt] \<and> list_all plain b"
  unfolding tag_tokens_def open_tags_def categories_def span_open_def span_close_def js_def plain_def by auto

lemma replace_skip_tag:
  assumes "guarded re" "t \<in> set tag_tokens"
  shows "replace_global re f prev (t @ rest) = t @ replace_global re f (Some gt) rest"
proof -
  from tag_token_shape[OF assms(2)] obtain b where t: "t = lt # b @ [gt]" and b: "list_all plain b"
    by blast
  have "re prev (lt # b @ gt # rest) = None" by (rule guarded_at_lt[OF assms(1)])
  then show ?thesis
    using replace_skip_inside[OF assms(1) b, of f "Some lt" rest] by (simp add: t)
qed

lemma guarded_passes_guarded: "re \<in> set guarded_passes \<Longrightarrow> guarded re"
  using guarded_keywordRegex guarded_typeRegex guarded_number_re guarded_function_re
    guarded_class_name_re guarded_decorator_re
  by (auto simp: guarded_passes_def)

subsection \<open>Well-formedness is kept\<close>

lemma open_tag_in_tokens: "t \<in> set open_tags \<Longrightarrow> t \<in> set tag_tokens"
  by (simp add: tag_tokens_def)

lemma span_close_in_tokens: "span_close \<in> set tag_tokens"
  by (simp add: tag_tokens_def)

lemma tag_token_Cons: "t \<in> set tag_tokens \<Longrightarrow> \<exists>r. t = lt # r"
  using tag_token_shape by fastforce

lemma balanced_plain_Cons:
  assumes "plain c"
  shows "balanced d (c # s) \<longleftrightarrow> balanced d s"
proof
  assume "balanced d (c # s)"
  then show "balanced d s"
  proof (cases rule: balanced.cases)
    case bal_unit then show ?thesis by simp
  next
    case (bal_open t s')
    from tag_token_Cons[OF open_tag_in_tokens[OF bal_open(2)]] obtain r where "t = lt # r" by blast
    with bal_open(1) have "c # s = lt # (r @ s')" by (metis append_Cons)
    then have "c = lt" by simp
    with assms show ?thesis by (simp add: plain_def)
  next
    case (bal_close d' s')
    from tag_token_Cons[OF span_close_in_tokens] obtain r where "span_close = lt # r" by blast
    with bal_close(2) have "c # s = lt # (r @ s')" by (metis append_Cons)
    then have "c = lt" by simp
    with assms show ?thesis by (simp add: plain_def)
  qed
next
  assume "balanced d s"
  with assms show "balanced d (c # s)" by (auto simp: plain_def intro: balanced.bal_unit)
qed

lemma list_all_take: "list_all P xs \<Longrightarrow> list_all P (take n xs)"
  by (simp add: list_all_iff) (meson in_set_takeD)

lemma list_all_drop: "list_all P xs \<Longrightarrow> list_all P (drop n xs)"
  by (simp add: list_all_iff) (meson in_set_dropD)

lemma balanced_plain_append: "list_all plain p \<Longrightarrow> balanced d (p @ s) \<longleftrightarrow> balanced d s"
  by (induction p) (auto simp: balanced_plain_Cons)

lemma balanced_wrapper:
  assumes "wrapper f" "list_all plain g" "balanced d s"
  shows "balanced d (f m g @ s)"
proof -
  from assms(1) obtain t tail where t: "t \<in> set open_tags" and tail: "list_all plain tail"
    and f: "f m g = t @ g @ span_close @ tail"
    unfolding wrapper_def by blast
  have "balanced d (tail @ s)" using assms(3) tail by (simp add: balanced_plain_append)
  then have "balanced (Suc d) (span_close @ tail @ s)" by (rule balanced.bal_close)
  then have "balanced (Suc d) (g @ span_close @ tail @ s)" using assms(2) by (simp add: balanced_plain_append)
  then have "balanced d (t @ g @ span_close @ tail @ s)" using t by (rule balanced.bal_open[rotated])
  then show ?thesis by (simp add: f)
qed

lemma balanced_replace_guarded:
  assumes "guarded re" "wrapper f"
  shows "balanced d s \<Longrightarrow> balanced d (replace_global re f prev s)"
proof (induction "length s" arbitrary: s d prev rule: less_induct)
  case less
  show ?case
  proof (cases s)
    case Nil
    have "re prev [] = None"
    proof (rule ccontr)
      assume "re prev [] \<noteq> None"
      then obtain n g where "re prev [] = Some (n, g)" by auto
      from guardedD(1,2)[OF assms(1) this] show False by simp
    qed
    with less.prems Nil show ?thesis by simp
  next
    case (Cons c s')
    from less.prems show ?thesis
    proof (cases rule: balanced.cases)
      case bal_end with Cons show ?thesis by simp
    next
      case (bal_unit c0 s0)
      with Cons have c: "plain c" and s': "balanced d s'" by (auto simp: plain_def)
      show ?thesis
      proof (cases "re prev (c # s')")
        case None
        have "balanced d (replace_global re f (Some c) s')"
          by (rule less.hyps) (auto simp: Cons s')
        with None c show ?thesis by (simp add: Cons balanced_plain_Cons)
      next
        case (Some a)
        obtain n g where a: "a = (n, g)" by (cases a)
        note G = guardedD[OF assms(1) Some[unfolded a]]
        have "balanced d (take n (c # s') @ drop n (c # s'))" using less.prems Cons by simp
        then have "balanced d (drop n (c # s'))" using G(3) by (simp only: balanced_plain_append)
        then have "balanced d (replace_global re f (before prev (c # s') n) (drop n (c # s')))"
          using G(1) by (intro less.hyps) (auto simp: Cons)
        then have "balanced d (f (take n (c # s')) g
             @ replace_global re f (before prev (c # s') n) (drop n (c # s')))"
          by (rule balanced_wrapper[OF assms(2) G(5)])
        with Some a G(1) show ?thesis by (simp add: Cons)
      qed
    next
      case (bal_open t s0)
      then have t: "t \<in> set tag_tokens" by (simp add: open_tag_in_tokens)
      from tag_token_Cons[OF t] bal_open(1) have "length s0 < length s" by auto
      then have "balanced (Suc d) (replace_global re f (Some gt) s0)"
        using bal_open(3) by (intro less.hyps)
      then have "balanced d (t @ replace_global re f (Some gt) s0)"
        using bal_open(2) by (rule balanced.bal_open[rotated])
      then show ?thesis by (simp add: bal_open(1) replace_skip_tag[OF assms(1) t])
    next
      case (bal_close d0 s0)
      from tag_token_Cons[OF span_close_in_tokens] bal_close(2) have "length s0 < length s" by auto
      then have "balanced d0 (replace_global re f (Some gt) s0)"
        using bal_close(3) by (intro less.hyps)
      then have "balanced (Suc d0) (span_close @ replace_global re f (Some gt) s0)"
        by (rule balanced.bal_close)
      then show ?thesis
        by (simp add: bal_close(1,2) replace_skip_tag[OF assms(1) span_close_in_tokens])
    qed
  qed
qed

lemma balanced_replace_plain:
  assumes "sound re" "wrapper f"
  shows "list_all plain s \<Longrightarrow> balanced 0 (replace_global re f prev s)"
proof (induction "length s" arbitrary: s prev rule: less_induct)
  case less
  show ?case
  proof (cases s)
    case Nil
    have "re prev [] = None"
    proof (rule ccontr)
      assume "re prev [] \<noteq> None"
      then obtain n g where "re prev [] = Some (n, g)" by auto
      with assms(1) show False unfolding sound_def by fastforce
    qed
    with Nil show ?thesis by (simp add: balanced.bal_end)
  next
    case (Cons c s')
    with less.prems have c: "plain c" and s': "list_all plain s'" by auto
    show ?thesis
    proof (cases "re prev (c # s')")
      case None
      have "balanced 0 (replace_global re f (Some c) s')"
        by (rule less.hyps) (auto simp: Cons s')
      with None c show ?thesis by (simp add: Cons balanced_plain_Cons)
    next
      case (Some a)
      obtain n g where a: "a = (n, g)" by (cases a)
      from assms(1) Some a have n: "0 < n" "n \<le> length (c # s')" and g: "g = take n (c # s')"
        unfolding sound_def by blast+
      have pg: "list_all plain g" unfolding g using less.prems unfolding Cons
        by (rule list_all_take)
      have "list_all plain (drop n (c # s'))" using less.prems unfolding Cons
        by (rule list_all_drop)
      then have "balanced 0 (replace_global re f (before prev (c # s') n) (drop n (c # s')))"
        using n(1) by (intro less.hyps) (auto simp: Cons)
      then have "balanced 0 (f (take n (c # s')) g
           @ replace_global re f (before prev (c # s') n) (drop n (c # s')))"
        by (rule balanced_wrapper[OF assms(2) pg])
      with Some a n(1) show ?thesis by (simp add: Cons)
    qed
  qed
qed

lemma delimited_SomeD:
  assumes "delimited op inner cl rest = Some n" "op \<noteq> []" "cl \<noteq> []"
  shows "0 < n \<and> n \<le> length rest"
proof -
  from assms(1) have
    "greedy (length (takeWhile inner (drop (length op) rest)))
        (\<lambda>k. if starts_with cl (drop (length op + k) rest)
             then Some (length op + k + length cl) else None) = Some n"
    by (auto simp: delimited_def split: if_splits)
  from greedy_SomeD[OF this] obtain k where
    c: "starts_with cl (drop (length op + k) rest)" and n: "n = length op + k + length cl"
    by (auto split: if_splits)
  from c have "length cl \<le> length rest - (length op + k)" by (simp add: starts_with_iff)
  moreover have "0 < length cl" using assms(3) by simp
  ultimately show ?thesis unfolding n by linarith
qed

lemma sound_string_re: "sound string_re"
  unfolding sound_def
  by (auto simp: string_re_def js_def split: option.splits dest!: delimited_SomeD)

lemma wrapper_span:
  "span_open cls \<in> set open_tags \<Longrightarrow> list_all plain tail \<Longrightarrow> wrapper (span cls tail)"
  unfolding wrapper_def span_def by auto

lemma open_tags_mem:
  "span_open (js ''text-gray-500 italic'') \<in> set open_tags"
  "span_open (js ''text-green-400'') \<in> set open_tags"
  "span_open (js ''text-purple-400'') \<in> set open_tags"
  "span_open (js ''text-cyan-400'') \<in> set open_tags"
  "span_open (js ''text-orange-400'') \<in> set open_tags"
  "span_open (js ''text-yellow-400'') \<in> set open_tags"
  "span_open (js ''text-blue-400'') \<in> set open_tags"
  "span_open (js ''text-pink-400'') \<in> set open_tags"
  by (simp_all add: open_tags_def categories_def)

lemma comment_pass_id:
  assumes "slash \<notin> set s"
  shows "replace_global line_comment_re f prev s = s" "replace_global block_comment_re f prev s = s"
proof -
  show "replace_global line_comment_re f prev s = s"
    by (rule replace_none) (use assms in \<open>auto simp: line_comment_re_def\<close>)
  show "replace_global block_comment_re f prev s = s"
    by (rule replace_none) (use assms in \<open>auto simp: block_comment_re_def\<close>)
qed

lemma escapeHtml_plain: "list_all plain (escapeHtml s)"
  using escapeHtml_set by (auto simp: list_all_iff plain_def)

lemma escapeHtml_no_slash: "slash \<notin> set (escapeHtml s)"
  using escapeHtml_set by blast

lemma highlight_balanced: "balanced 0 (highlightCode s)"
proof -
  let ?e = "escapeHtml s"
  have s3: "balanced 0 (replace_global string_re (span (js ''text-green-400'') []) None ?e)"
    by (rule balanced_replace_plain[OF sound_string_re wrapper_span[OF open_tags_mem(2)] escapeHtml_plain]) simp
  show ?thesis
    unfolding highlightCode_def Let_def comment_pass_id[OF escapeHtml_no_slash]
    by (intro balanced_replace_guarded guarded_keywordRegex guarded_typeRegex guarded_number_re
        guarded_function_re guarded_class_name_re guarded_decorator_re wrapper_span open_tags_mem s3)
       (simp_all add: plain_def)
qed

subsection \<open>Stripping the tags\<close>

lemma find_unique:
  "t \<in> set xs \<Longrightarrow> P t \<Longrightarrow> (\<forall>x\<in>set xs. P x \<longrightarrow> x = t) \<Longrightarrow> find P xs = Some t"
proof (induction xs)
  case Nil then show ?case by simp
next
  case (Cons a xs)
  show ?case
  proof (cases "P a")
    case True
    with Cons.prems(3) have "a = t" by (metis list.set_intros(1))
    with True show ?thesis by (simp only: find.simps if_True)
  next
    case False
    with Cons.prems(1,2) have "t \<in> set xs" by auto
    moreover from Cons.prems(3) have "\<forall>x\<in>set xs. P x \<longrightarrow> x = t"
      by (metis list.set_intros(2))
    ultimately have "find P xs = Some t" using Cons.IH Cons.prems(2) by blast
    with False show ?thesis by (simp only: find.simps if_False)
  qed
qed

lemma starts_with_same_prefix: "starts_with (p @ a) (p @ b) = starts_with a b"
  by (induction p) auto

lemma starts_with_delimiter:
  "c \<notin> set a \<Longrightarrow> c \<notin> set b \<Longrightarrow> starts_with (a @ c # x) (b @ c # y) \<Longrightarrow> a = b"
proof (induction a arbitrary: b)
  case Nil
  then show ?case by (cases b) (auto split: if_splits)
next
  case (Cons a0 a)
  then show ?case by (cases b) (auto split: if_splits)
qed

lemma categories_no_dquote: "c \<in> set categories \<Longrightarrow> dquote \<notin> set c"
  by (auto simp: categories_def js_def)

lemma open_tags_prefix_free:
  assumes "c1 \<in> set categories" "c2 \<in> set categories"
    "starts_with (span_open c1) (span_open c2 @ s)"
  shows "c1 = c2"
proof -
  from assms(3) have "starts_with (c1 @ dquote # js ''>'') (c2 @ dquote # js ''>'' @ s)"
    by (simp add: span_open_def starts_with_same_prefix)
  then show ?thesis
    using starts_with_delimiter categories_no_dquote[OF assms(1)] categories_no_dquote[OF assms(2)]
    by blast
qed

lemma close_not_open: "\<not> starts_with span_close (span_open c @ s)"
  by (simp add: span_close_def span_open_def js_def)

lemma find_tag_token:
  assumes "t \<in> set tag_tokens"
  shows "find (\<lambda>t'. starts_with t' (t @ s)) tag_tokens = Some t"
proof (cases "t = span_close")
  case True
  then show ?thesis by (simp add: tag_tokens_def starts_with_append)
next
  case False
  with assms obtain c where c: "c \<in> set categories" and t: "t = span_open c"
    by (auto simp: tag_tokens_def open_tags_def)
  have "find (\<lambda>t'. starts_with t' (t @ s)) open_tags = Some t"
  proof (rule find_unique)
    show "t \<in> set open_tags" using c t by (simp add: open_tags_def)
    show "starts_with t (t @ s)" by (rule starts_with_append)
    show "\<forall>x\<in>set open_tags. starts_with x (t @ s) \<longrightarrow> x = t"
      using open_tags_prefix_free[OF _ c] unfolding t open_tags_def by auto
  qed
  then show ?thesis by (simp add: tag_tokens_def t close_not_open)
qed

lemma strip_tags_token: "t \<in> set tag_tokens \<Longrightarrow> strip_tags (t @ s) = strip_tags s"
proof -
  assume t: "t \<in> set tag_tokens"
  from tag_token_Cons[OF t] obtain r where r: "t = lt # r" by blast
  have "strip_tags (lt # r @ s) = strip_tags (drop (length t) (lt # r @ s))"
    using find_tag_token[OF t, of s] unfolding r by simp
  then show ?thesis by (simp add: r)
qed

lemma strip_tags_plain: "plain c \<Longrightarrow> strip_tags (c # s) = c # strip_tags s"
proof -
  assume c: "plain c"
  have "find (\<lambda>t. starts_with t (c # s)) tag_tokens = None"
  proof (rule ccontr)
    assume "find (\<lambda>t. starts_with t (c # s)) tag_tokens \<noteq> None"
    then obtain t where "find (\<lambda>t. starts_with t (c # s)) tag_tokens = Some t" by auto
    from find_SomeD[OF this] have "t \<in> set tag_tokens" "starts_with t (c # s)" by auto
    with tag_token_Cons[of t] c show False by (auto simp: plain_def split: if_splits)
  qed
  then show ?thesis by simp
qed

lemma balanced_strip_plain: "balanced d s \<Longrightarrow> list_all plain (strip_tags s)"
proof (induction rule: balanced.induct)
  case bal_end then show ?case by simp
next
  case (bal_unit c d s)
  then have c: "plain c" by (simp add: plain_def)
  show ?case unfolding strip_tags_plain[OF c] using c bal_unit.IH by simp
next
  case (bal_open t d s)
  then show ?case by (simp only: strip_tags_token[OF open_tag_in_tokens])
next
  case (bal_close d s)
  then show ?case by (simp only: strip_tags_token[OF span_close_in_tokens])
qed

subsection \<open>Quoted literals\<close>

lemma greedy_top: "k n = Some r \<Longrightarrow> greedy n k = Some r"
  by (cases n) auto

lemma escapeHtml_not_special: "list_all (\<lambda>x. \<not> is_special x) p \<Longrightarrow> escapeHtml p = p"
  by (induction p) (auto simp: escapeHtml_concat escape_unit_def)

lemma escapeHtml_Cons: "escapeHtml (x # r) = escape_unit x @ escapeHtml r"
  by (simp add: escapeHtml_concat)

lemma entity_amp: "is_special x \<Longrightarrow> \<exists>e. escape_unit x = amp # e"
  by (auto simp: escape_unit_def is_special_def entity_of_def htmlEntities_def js_def)

lemma entity_quot: "is_special x \<Longrightarrow> starts_with (js ''&quot;'') (escape_unit x @ r) \<longleftrightarrow> x = dquote"
  by (auto simp: escape_unit_def is_special_def entity_of_def htmlEntities_def js_def)

lemma entity_apos: "is_special x \<Longrightarrow> starts_with (js ''&#x27;'') (escape_unit x @ r) \<longleftrightarrow> x = squote"
  by (auto simp: escape_unit_def is_special_def entity_of_def htmlEntities_def js_def)

lemma not_special_not_amp: "\<not> is_special x \<Longrightarrow> x \<noteq> amp"
  by (auto simp: is_special_def)

lemma find_first: "list_all (\<lambda>x. \<not> P x) p \<Longrightarrow> P x \<Longrightarrow> find P (p @ x # r) = Some x"
  by (induction p) auto

lemma takeWhile_first: "list_all Q p \<Longrightarrow> \<not> Q x \<Longrightarrow> takeWhile Q (p @ x # r) = p"
  by (induction p) auto

lemma first_special:
  assumes "\<exists>x\<in>set c. is_special x"
  obtains p x r where "c = p @ x # r" "list_all (\<lambda>x. \<not> is_special x) p" "is_special x"
proof -
  let ?p = "takeWhile (\<lambda>x. \<not> is_special x) c"
  let ?d = "dropWhile (\<lambda>x. \<not> is_special x) c"
  from assms have "?d \<noteq> []" by (auto simp: dropWhile_eq_Nil_conv)
  then obtain x r where d: "?d = x # r" by (cases ?d) auto
  then have x: "is_special x" using hd_dropWhile[of "\<lambda>x. \<not> is_special x" c] by auto
  have c: "c = ?p @ x # r" using d takeWhile_dropWhile_id[of "\<lambda>x. \<not> is_special x" c] by simp
  have p: "list_all (\<lambda>x. \<not> is_special x) ?p" by (auto simp: list_all_iff dest: set_takeWhileD)
  from c p x show ?thesis by (rule that)
qed

text \<open>The match of one quoted alternative at the opening delimiter of an escaped literal
  whose contents are \<open>p @ x # r\<close>, \<open>x\<close> being the first escaped character.\<close>

lemma delimited_literal:
  assumes p: "list_all (\<lambda>x. \<not> is_special x) p" and x: "is_special x"
    and q: "q = amp # q'" 
    and own: "\<And>t. starts_with q (escape_unit x @ t) \<longleftrightarrow> x = d"
  shows "delimited q (\<lambda>c. c \<noteq> amp) q (q @ escapeHtml (p @ x # r) @ q @ rest) =
           (if x = d then Some (length q + length p + length q) else None)"
proof -
  let ?tail = "escape_unit x @ escapeHtml r @ q @ rest"
  have e: "escapeHtml (p @ x # r) @ q @ rest = p @ ?tail"
    by (simp add: escapeHtml_append escapeHtml_Cons escapeHtml_not_special[OF p])
  from entity_amp[OF x] obtain e' where e': "escape_unit x = amp # e'" by blast
  have pa: "list_all (\<lambda>c. c \<noteq> amp) p"
    using p not_special_not_amp by (auto simp: list_all_iff)
  have run: "takeWhile (\<lambda>c. c \<noteq> amp) (p @ ?tail) = p"
    unfolding e' using takeWhile_first[OF pa, of amp] by simp
  let ?k = "\<lambda>k. if starts_with q (drop (length q + k) (q @ p @ ?tail))
                 then Some (length q + k + length q) else None"
  have below: "?k i = None" if "i < length p" for i
  proof -
    from that have "drop i p \<noteq> []" by simp
    then obtain y ys where y: "drop i p = y # ys" by (cases "drop i p") auto
    then have "y \<in> set p" by (metis in_set_dropD list.set_intros(1))
    with pa have "y \<noteq> amp" by (auto simp: list_all_iff)
    then have "\<not> starts_with q (drop i p @ ?tail)" by (simp add: y q)
    with that show ?thesis by simp
  qed
  have top: "?k (length p) = (if x = d then Some (length q + length p + length q) else None)"
    using own by simp
  have "greedy (length p) ?k = (if x = d then Some (length q + length p + length q) else None)"
  proof (cases "x = d")
    case True
    with top show ?thesis by (simp add: greedy_top)
  next
    case False
    have "greedy (length p) ?k = None"
    proof (rule greedy_None)
      fix i assume "i \<le> length p"
      then show "?k i = None" using below[of i] top False by (cases "i = length p") auto
    qed
    with False show ?thesis by simp
  qed
  then show ?thesis
    unfolding delimited_def e by (simp add: starts_with_append run)
qed

lemma escape_unit_backtick: "backtick \<in> set (escape_unit x) \<Longrightarrow> x = backtick"
  by (auto simp: escape_unit_def is_special_def entity_of_def htmlEntities_def js_def split: if_splits)

lemma escapeHtml_backtick: "backtick \<notin> set c \<Longrightarrow> backtick \<notin> set (escapeHtml c)"
  unfolding escapeHtml_concat using escape_unit_backtick by auto

lemma not_quoted:
  "delimited (js ''&quot;'') inner cl (js ''&#x27;'' @ t) = None"
  "delimited (js ''&quot;'') inner cl (backtick # t) = None"
  "delimited (js ''&#x27;'') inner cl (js ''&quot;'' @ t) = None"
  "delimited (js ''&#x27;'') inner cl (backtick # t) = None"
  "delimited [backtick] inner cl (js ''&quot;'' @ t) = None"
  "delimited [backtick] inner cl (js ''&#x27;'' @ t) = None"
  by (simp_all add: delimited_def js_def)

lemma string_re_quoted:
  assumes "\<exists>x\<in>set c. is_special x"
  shows "string_re prev (js ''&quot;'' @ escapeHtml c @ js ''&quot;'' @ rest) =
           (if find is_special c = Some dquote
            then Some (12 + length (takeWhile (\<lambda>x. \<not> is_special x) c),
                       js ''&quot;'' @ takeWhile (\<lambda>x. \<not> is_special x) c @ js ''&quot;'')
            else None)" (is ?A)
    and "string_re prev (js ''&#x27;'' @ escapeHtml c @ js ''&#x27;'' @ rest) =
           (if find is_special c = Some squote
            then Some (12 + length (takeWhile (\<lambda>x. \<not> is_special x) c),
                       js ''&#x27;'' @ takeWhile (\<lambda>x. \<not> is_special x) c @ js ''&#x27;'')
            else None)" (is ?B)
    and "12 + length (takeWhile (\<lambda>x. \<not> is_special x) c) < 12 + length (escapeHtml c)" (is ?C)
proof -
  from first_special[OF assms] obtain p x r where c: "c = p @ x # r"
    and p: "list_all (\<lambda>x. \<not> is_special x) p" and x: "is_special x" by blast
  have f: "find is_special c = Some x" unfolding c using p x by (rule find_first)
  have t: "takeWhile (\<lambda>x. \<not> is_special x) c = p" unfolding c using p x by (simp add: takeWhile_first)
  have ql: "length (js ''&quot;'') = 6" "length (js ''&#x27;'') = 6" by (simp_all add: js_def)
  have qa: "js ''&quot;'' = amp # js ''quot;''" "js ''&#x27;'' = amp # js ''#x27;''" by (simp_all add: js_def)
  have e: "escapeHtml c = p @ escape_unit x @ escapeHtml r"
    unfolding c by (simp add: escapeHtml_append escapeHtml_Cons escapeHtml_not_special[OF p])
  have tk: "take (12 + length p) (q @ p @ escape_unit x @ escapeHtml r @ q @ rest) = q @ p @ q"
    if "length q = 6" "starts_with q (escape_unit x @ escapeHtml r @ q @ rest)" for q
  proof -
    from starts_withD[OF that(2)] obtain u where u: "escape_unit x @ escapeHtml r @ q @ rest = q @ u"
      by metis
    show ?thesis unfolding u using that(1) by simp
  qed
  have d1: "delimited (js ''&quot;'') (\<lambda>c. c \<noteq> amp) (js ''&quot;'')
              (js ''&quot;'' @ escapeHtml c @ js ''&quot;'' @ rest) =
            (if x = dquote then Some (12 + length p) else None)"
    unfolding c using delimited_literal[OF p x qa(1) entity_quot[OF x], of r rest]
    by (simp add: ql)
  have d2: "delimited (js ''&#x27;'') (\<lambda>c. c \<noteq> amp) (js ''&#x27;'')
              (js ''&#x27;'' @ escapeHtml c @ js ''&#x27;'' @ rest) =
            (if x = squote then Some (12 + length p) else None)"
    unfolding c using delimited_literal[OF p x qa(2) entity_apos[OF x], of r rest]
    by (simp add: ql)
  show ?A
  proof (cases "x = dquote")
    case True
    then have "starts_with (js ''&quot;'') (escape_unit x @ escapeHtml r @ js ''&quot;'' @ rest)"
      using entity_quot[OF x] by simp
    from tk[OF ql(1) this] True show ?thesis
      unfolding string_re_def d1 f t by (simp add: e)
  next
    case False
    then show ?thesis unfolding string_re_def d1 f t by (simp add: not_quoted)
  qed
  show ?B
  proof (cases "x = squote")
    case True
    then have "starts_with (js ''&#x27;'') (escape_unit x @ escapeHtml r @ js ''&#x27;'' @ rest)"
      using entity_apos[OF x] by simp
    from tk[OF ql(2) this] True show ?thesis
      unfolding string_re_def d2 f t by (simp add: e not_quoted)
  next
    case False
    then show ?thesis unfolding string_re_def d2 f t by (simp add: not_quoted)
  qed
  from entity_amp[OF x] show ?C unfolding t e by auto
qed

lemma string_re_backtick:
  assumes "backtick \<notin> set c"
  shows "string_re prev ([backtick] @ escapeHtml c @ [backtick] @ rest) =
           Some (length (escapeHtml c) + 2, [backtick] @ escapeHtml c @ [backtick])"
proof -
  let ?e = "escapeHtml c"
  have b: "list_all (\<lambda>c. c \<noteq> backtick) ?e"
    using escapeHtml_backtick[OF assms] by (auto simp: list_all_iff)
  have run: "takeWhile (\<lambda>c. c \<noteq> backtick) (?e @ backtick # rest) = ?e"
    using takeWhile_first[OF b, of backtick rest] by simp
  have "delimited [backtick] (\<lambda>c. c \<noteq> backtick) [backtick] (backtick # ?e @ backtick # rest)
          = Some (length ?e + 2)"
    unfolding delimited_def by (simp add: run greedy_top)
  then show ?thesis
    unfolding string_re_def by (simp add: not_quoted)
qed

subsection \<open>Whole words\<close>

lemma alternatives_None:
  "(\<And>w. w \<in> set ws \<Longrightarrow> starts_with w rest \<Longrightarrow> k w = None) \<Longrightarrow> alternatives ws rest k = None"
  by (induction ws) auto

lemma alternatives_only:
  assumes "\<And>w. w \<in> set ws \<Longrightarrow> starts_with w rest \<Longrightarrow> k w = (if w = W then r else None)"
    and "starts_with W rest"
  shows "alternatives ws rest k = (if W \<in> set ws then r else None)"
  using assms(1)
proof (induction ws)
  case Nil then show ?case by simp
next
  case (Cons a ws)
  have IH: "alternatives ws rest k = (if W \<in> set ws then r else None)"
    by (rule Cons.IH) (simp add: Cons.prems)
  show ?case
  proof (cases "starts_with a rest")
    case True
    then have ka: "k a = (if a = W then r else None)" by (simp add: Cons.prems)
    show ?thesis
    proof (cases "a = W")
      case True
      with ka \<open>starts_with a rest\<close> IH show ?thesis by (cases r) auto
    next
      case False
      with ka True IH show ?thesis by auto
    qed
  next
    case False
    with assms(2) have "a \<noteq> W" by auto
    with False IH show ?thesis by auto
  qed
qed

lemma takeWhile_word:
  assumes "starts_with w rest" "list_all is_word_char w"
  shows "takeWhile is_word_char rest = w \<longleftrightarrow> \<not> word_after (drop (length w) rest)"
proof -
  from starts_withD[OF assms(1)] obtain u where u: "rest = w @ u" and d: "drop (length w) rest = u"
    by (metis append_eq_conv_conj)
  have "takeWhile is_word_char (w @ u) = w @ takeWhile is_word_char u"
    using assms(2) by (simp add: list_all_iff takeWhile_append2)
  then show ?thesis unfolding d unfolding u by (cases u) (auto simp: word_after_def)
qed

lemma before_last: "starts_with w rest \<Longrightarrow> w \<noteq> [] \<Longrightarrow> before prev rest (length w) = Some (last w)"
proof -
  assume "starts_with w rest" "w \<noteq> []"
  then have "take (length w) rest = w" by (simp add: starts_with_iff)
  with \<open>w \<noteq> []\<close> show ?thesis unfolding before_def
    by (cases "rev w") (auto simp: last_rev[symmetric] simp del: last_rev)
qed

text \<open>A word-list expression matches whole words only: the word at the position, if it
  is in the list, the position is the start of a word, and no tag closes ahead.\<close>

lemma word_list_re_whole_word:
  assumes ws: "list_all (\<lambda>w. w \<noteq> [] \<and> list_all is_word_char w) ws"
  shows "word_list_re ws prev rest =
     (if word_before prev then None
      else if takeWhile is_word_char rest \<in> set ws
      then if tag_ahead (drop (length (takeWhile is_word_char rest)) rest) then None
           else Some (length (takeWhile is_word_char rest), takeWhile is_word_char rest)
      else None)"
proof -
  let ?W = "takeWhile is_word_char rest"
  let ?k = "\<lambda>w. if word_end prev rest (length w) then Some (length w, w) else None"
  let ?r = "if tag_ahead (drop (length ?W) rest) then None else Some (length ?W, ?W)"
  have wsD: "w \<noteq> [] \<and> list_all is_word_char w" if "w \<in> set ws" for w
    using ws that by (auto simp: list_all_iff)
  have first: "word_after rest" if "w \<in> set ws" "starts_with w rest" for w
  proof -
    from wsD[OF that(1)] obtain a w' where "w = a # w'" "is_word_char a" by (cases w) auto
    with that(2) show ?thesis by (cases rest) (auto simp: word_after_def split: if_splits)
  qed
  show ?thesis
  proof (cases "word_after rest")
    case False
    have "alternatives ws rest ?k = None"
      by (rule alternatives_None) (use first False in blast)
    moreover have "?W = []" using False by (cases rest) (auto simp: word_after_def)
    moreover have "[] \<notin> set ws" using wsD by blast
    ultimately show ?thesis by (simp add: word_list_re_def word_boundary_def)
  next
    case True
    have sw: "starts_with ?W rest"
      by (simp add: starts_with_iff) (metis takeWhile_eq_take length_takeWhile_le)
    have k: "?k w = (if w = ?W then ?r else None)" if "w \<in> set ws" "starts_with w rest" for w
    proof -
      from wsD[OF that(1)] have w: "w \<noteq> []" "list_all is_word_char w" by auto
      then have "is_word_char (last w)" by (simp add: list_all_iff)
      then have "word_boundary (before prev rest (length w)) (drop (length w) rest)
                  \<longleftrightarrow> \<not> word_after (drop (length w) rest)"
        by (simp add: before_last[OF that(2) w(1)] word_boundary_def word_before_def)
      also have "\<dots> \<longleftrightarrow> ?W = w" using takeWhile_word[OF that(2) w(2)] by simp
      finally show ?thesis by (auto simp: word_end_def)
    qed
    have "alternatives ws rest ?k = (if ?W \<in> set ws then ?r else None)"
      by (rule alternatives_only[OF k sw])
    with True show ?thesis by (auto simp: word_list_re_def word_boundary_def)
  qed
qed

lemma keywords_words: "list_all (\<lambda>w. w \<noteq> [] \<and> list_all is_word_char w) keywords_list"
  by (simp add: keywords_list_def js_def is_word_char_def is_lower_def is_upper_def is_digit_def)

lemma types_words: "list_all (\<lambda>w. w \<noteq> [] \<and> list_all is_word_char w) types"
  by (simp add: types_def js_def is_word_char_def is_lower_def is_upper_def is_digit_def)

subsection \<open>Evaluation\<close>

text \<open>The equations by which the simplifier runs the passes on a given text.\<close>

lemma regexp_eval:
  "keywordRegex prev rest =
     (if word_before prev then None else whole_word keywords_list (takeWhile is_word_char rest) rest)"
  "typeRegex prev rest =
     (if word_before prev then None else whole_word types (takeWhile is_word_char rest) rest)"
  "number_re prev rest = token_re is_digit is_digit prev rest"
  "class_name_re prev rest = token_re is_upper is_ident_char prev rest"
  by (simp_all add: keywordRegex_def typeRegex_def number_re_def class_name_re_def whole_word_def
      word_list_re_whole_word[OF keywords_words] word_list_re_whole_word[OF types_words])

lemmas class_eval = is_digit_def is_upper_def is_lower_def is_word_char_def is_ident_start_def
  is_ident_char_def is_line_terminator_def is_space_def
lemmas words_eval = keywords_list_def[unfolded js_def, simplified] types_def[unfolded js_def, simplified]
lemmas literal_eval = htmlEntities_def[unfolded js_def, simplified]
  string_re_def[unfolded js_def, simplified]
  span_def[unfolded span_open_def span_close_def js_def, simplified]
lemmas match_eval = regexp_eval whole_word_def escape_re_def line_comment_re_def block_comment_re_def
  delimited_def token_re_def function_re_def word_end_def decorator_re_def before_def
  word_before_def word_after_def word_boundary_def at_line_end_def entity_of_def
lemmas highlight_eval = highlightCode_def escapeHtml_def Let_def js_def span_open_def span_close_def
  class_eval words_eval literal_eval match_eval

lemmas tag_tokens_eval =
  tag_tokens_def[unfolded open_tags_def categories_def span_open_def span_close_def js_def, simplified]

subsection \<open>The scan of the string pass\<close>

lemma before_0: "before prev s 0 = prev"
  by (simp add: before_def)

lemma before_Cons: "before prev (c # cs) (Suc k) = before (Some c) cs k"
  by (cases "rev (take k cs)") (auto simp: before_def)

lemma before_add: "before (before prev s n) (drop n s) m = before prev s (n + m)"
proof (cases "take m (drop n s) = []")
  case True
  show ?thesis by (simp add: before_def take_add True del: take_eq_Nil take_eq_Nil2)
next
  case False
  then obtain x xs where "rev (take m (drop n s)) = x # xs" by (cases "rev (take m (drop n s))") auto
  then show ?thesis by (simp add: before_def take_add)
qed

lemma strip_tags_plain_append: "list_all plain p \<Longrightarrow> strip_tags (p @ z) = p @ strip_tags z"
  by (induction p) (simp_all add: strip_tags_plain del: strip_tags.simps)

lemma strip_tags_span:
  assumes "span_open cls \<in> set open_tags" "list_all plain g"
  shows "strip_tags (span cls [] m g @ z) = g @ strip_tags z"
proof -
  have "strip_tags (span cls [] m g @ z) = strip_tags (span_open cls @ g @ span_close @ z)"
    by (simp add: span_def)
  also have "\<dots> = strip_tags (g @ span_close @ z)"
    by (rule strip_tags_token[OF open_tag_in_tokens[OF assms(1)]])
  also have "\<dots> = g @ strip_tags (span_close @ z)"
    by (rule strip_tags_plain_append[OF assms(2)])
  also have "\<dots> = g @ strip_tags z"
    by (simp only: strip_tags_token[OF span_close_in_tokens])
  finally show ?thesis .
qed

lemma reaches_split:
  assumes re: "sound re" and cls: "span_open cls \<in> set open_tags"
  shows "list_all plain s \<Longrightarrow> reaches re prev s k \<Longrightarrow>
           \<exists>X. replace_global re (span cls []) prev s
                  = X @ replace_global re (span cls []) (before prev s k) (drop k s)
               \<and> strip_tags X = take k s"
proof (induction k arbitrary: prev s rule: less_induct)
  case (less k0)
  show ?case
  proof (cases k0)
    case 0
    show ?thesis unfolding 0 by (rule exI[of _ "[]"]) (simp add: before_0)
  next
    case (Suc k)
    show ?thesis
    proof (cases s)
      case Nil
      with less.prems(2) Suc show ?thesis by simp
    next
      case (Cons c cs)
      note prems = less.prems[unfolded Suc Cons]
      have IH: "\<exists>X. replace_global re (span cls []) p t
                  = X @ replace_global re (span cls []) (before p t j) (drop j t)
               \<and> strip_tags X = take j t"
        if "j < Suc k" "list_all plain t" "reaches re p t j" for j p t
        using less.IH[of j t p] that Suc by simp
      have "\<exists>X. replace_global re (span cls []) prev (c # cs)
                  = X @ replace_global re (span cls []) (before prev (c # cs) (Suc k)) (drop (Suc k) (c # cs))
               \<and> strip_tags X = take (Suc k) (c # cs)"
      proof -
        from prems(1) have c: "plain c" and cs: "list_all plain cs" by auto
        show ?thesis
        proof (cases "re prev (c # cs)")
          case None
          with prems(2) have r: "reaches re (Some c) cs k" by simp
          from IH[OF _ cs r] obtain X where
            X: "replace_global re (span cls []) (Some c) cs
                  = X @ replace_global re (span cls []) (before (Some c) cs k) (drop k cs)"
            and sX: "strip_tags X = take k cs" by blast
          show ?thesis
            by (rule exI[of _ "c # X"]) (simp add: None X before_Cons strip_tags_plain[OF c] sX del: strip_tags.simps)
        next
          case (Some a)
          obtain n g where a: "a = (n, g)" by (cases a)
          from re Some a have n: "0 < n" "n \<le> length (c # cs)" and g: "g = take n (c # cs)"
            unfolding sound_def by blast+
          from prems(2) Some a n(1) have nk: "n \<le> Suc k"
            and r: "reaches re (before prev (c # cs) n) (drop n (c # cs)) (Suc k - n)"
            by (auto split: if_splits)
          have pd: "list_all plain (drop n (c # cs))" by (rule list_all_drop[OF prems(1)])
          have pg: "list_all plain g" unfolding g by (rule list_all_take[OF prems(1)])
          from n(1) have n0: "n \<noteq> 0" by simp
          from n(1) have "Suc k - n < Suc k" by simp
          from IH[OF this pd r] obtain X where
            X: "replace_global re (span cls []) (before prev (c # cs) n) (drop n (c # cs))
                  = X @ replace_global re (span cls [])
                          (before (before prev (c # cs) n) (drop n (c # cs)) (Suc k - n))
                          (drop (Suc k - n) (drop n (c # cs)))"
            and sX: "strip_tags X = take (Suc k - n) (drop n (c # cs))" by blast
          have b: "before (before prev (c # cs) n) (drop n (c # cs)) (Suc k - n) = before prev (c # cs) (Suc k)"
            using nk by (simp add: before_add)
          have d: "drop (Suc k - n) (drop n (c # cs)) = drop (Suc k) (c # cs)"
            using nk by (simp del: drop_Suc_Cons)
          have t: "g @ take (Suc k - n) (drop n (c # cs)) = take (Suc k) (c # cs)"
            unfolding g using nk take_add[of n "Suc k - n" "c # cs"] by (simp del: take_Suc_Cons)
          let ?X = "span cls [] (take n (c # cs)) g @ X"
          have "replace_global re (span cls []) prev (c # cs)
                  = ?X @ replace_global re (span cls []) (before prev (c # cs) (Suc k)) (drop (Suc k) (c # cs))"
            using Some a n0 X b d by (simp del: drop_Suc_Cons take_Suc_Cons)
          moreover have "strip_tags ?X = take (Suc k) (c # cs)"
            unfolding strip_tags_span[OF cls pg] sX t ..
          ultimately show ?thesis by blast
        qed
      qed
      then show ?thesis unfolding Suc Cons .
    qed
  qed
qed

lemma replace_prev_irrelevant:
  assumes "\<And>p q r. re p r = re q r"
  shows "replace_global re f p s = replace_global re f q s"
proof (induction "length s" arbitrary: s p q rule: less_induct)
  case less
  show ?case
  proof (cases s)
    case Nil
    then show ?thesis using assms[of p "[]" q] by simp
  next
    case (Cons c cs)
    have e: "re p (c # cs) = re q (c # cs)" by (rule assms)
    show ?thesis
    proof (cases "re q (c # cs)")
      case None
      with e Cons show ?thesis by simp
    next
      case (Some a)
      obtain n g where a: "a = (n, g)" by (cases a)
      show ?thesis
      proof (cases "n = 0")
        case True
        with e Some a Cons show ?thesis by simp
      next
        case False
        then have "length (drop n (c # cs)) < length s" by (simp add: Cons)
        from less[OF this] have
          "replace_global re f (before p (c # cs) n) (drop n (c # cs))
            = replace_global re f (before q (c # cs) n) (drop n (c # cs))" .
        with e Some a Cons False show ?thesis by simp
      qed
    qed
  qed
qed

lemma string_pass_from: "replace_global string_re (span (js ''text-green-400'') []) prev s = string_pass s"
  unfolding string_pass_def by (rule replace_prev_irrelevant) (simp add: string_re_def)

lemma escape_unit_quotes:
  "escape_unit dquote = js ''&quot;''" "escape_unit squote = js ''&#x27;''" "escape_unit backtick = [backtick]"
  by (simp_all add: escape_unit_def is_special_def entity_of_def htmlEntities_def)

lemma escapeHtml_Nil: "escapeHtml [] = []"
  by (simp add: escapeHtml_concat)

lemma escapeHtml_literal:
  "escapeHtml (pre @ [q] @ c @ [q] @ post)
     = escapeHtml pre @ escape_unit q @ escapeHtml c @ escape_unit q @ escapeHtml post"
  by (simp add: escapeHtml_append escapeHtml_Cons)

text \<open>The string pass arriving at the opening delimiter of a quoted literal.\<close>

lemma string_pass_at_quoted:
  assumes c: "\<exists>x\<in>set c. is_special x" and q: "q = dquote \<or> q = squote"
  shows "replace_global string_re (span (js ''text-green-400'') []) prev
           (escape_unit q @ escapeHtml c @ escape_unit q @ rest) =
         (if find is_special c = Some q
          then span_open (js ''text-green-400'')
                 @ escape_unit q @ takeWhile (\<lambda>x. \<not> is_special x) c @ escape_unit q
                 @ span_close
                 @ string_pass (drop (12 + length (takeWhile (\<lambda>x. \<not> is_special x) c))
                                 (escape_unit q @ escapeHtml c @ escape_unit q @ rest))
          else amp # string_pass (drop 1 (escape_unit q @ escapeHtml c @ escape_unit q @ rest)))"
proof -
  let ?f = "span (js ''text-green-400'') []"
  let ?p = "takeWhile (\<lambda>x. \<not> is_special x) c"
  let ?L = "escape_unit q @ escapeHtml c @ escape_unit q @ rest"
  have m: "string_re prev ?L =
            (if find is_special c = Some q
             then Some (12 + length ?p, escape_unit q @ ?p @ escape_unit q) else None)"
    using q string_re_quoted(1,2)[OF c, of prev rest] by (auto simp: escape_unit_quotes)
  obtain t where L: "?L = amp # t"
    using q by (auto simp: escape_unit_quotes js_def)
  show ?thesis
  proof (cases "find is_special c = Some q")
    case True
    with m have s: "string_re prev (amp # t) = Some (12 + length ?p, escape_unit q @ ?p @ escape_unit q)"
      by (simp add: L)
    have "replace_global string_re ?f prev (amp # t)
            = ?f (take (12 + length ?p) (amp # t)) (escape_unit q @ ?p @ escape_unit q)
               @ replace_global string_re ?f (before prev (amp # t) (12 + length ?p))
                   (drop (12 + length ?p) (amp # t))"
      by (simp add: s del: take_Suc_Cons drop_Suc_Cons)
    then show ?thesis
      unfolding L[symmetric] using True by (simp add: string_pass_from span_def)
  next
    case False
    with m have "string_re prev (amp # t) = None" by (simp add: L)
    then have "replace_global string_re ?f prev (amp # t) = amp # string_pass t"
      by (simp add: string_pass_from)
    then show ?thesis unfolding L[symmetric] using False by (simp add: L)
  qed
qed

lemma string_pass_at_backtick:
  assumes "backtick \<notin> set c"
  shows "replace_global string_re (span (js ''text-green-400'') []) prev
           ([backtick] @ escapeHtml c @ [backtick] @ rest) =
         span_open (js ''text-green-400'') @ [backtick] @ escapeHtml c @ [backtick] @ span_close
           @ string_pass rest"
proof -
  let ?f = "span (js ''text-green-400'') []"
  let ?n = "length (escapeHtml c) + 2"
  have s: "string_re prev (backtick # escapeHtml c @ backtick # rest)
            = Some (?n, [backtick] @ escapeHtml c @ [backtick])"
    using string_re_backtick[OF assms, of prev rest] by simp
  have d: "drop ?n (backtick # escapeHtml c @ backtick # rest) = rest" by simp
  have "replace_global string_re ?f prev (backtick # escapeHtml c @ backtick # rest)
          = ?f (take ?n (backtick # escapeHtml c @ backtick # rest)) ([backtick] @ escapeHtml c @ [backtick])
             @ replace_global string_re ?f (before prev (backtick # escapeHtml c @ backtick # rest) ?n)
                 (drop ?n (backtick # escapeHtml c @ backtick # rest))"
    by (simp add: s del: take_Suc_Cons drop_Suc_Cons)
  then show ?thesis
    unfolding d by (simp add: string_pass_from span_def)
qed

lemma string_pass_reaches:
  assumes "reaches string_re None (escapeHtml pre @ L) (length (escapeHtml pre))"
    and "list_all plain L"
  shows "\<exists>X. string_pass (escapeHtml pre @ L)
               = X @ replace_global string_re (span (js ''text-green-400'') [])
                       (before None (escapeHtml pre @ L) (length (escapeHtml pre))) L
            \<and> strip_tags X = escapeHtml pre"
proof -
  have p: "list_all plain (escapeHtml pre @ L)" using escapeHtml_plain[of pre] assms(2) by simp
  from reaches_split[OF sound_string_re open_tags_mem(2) p assms(1)]
  show ?thesis by (simp add: string_pass_def)
qed

text \<open>A literal the scan does not come to: the backtick of a comment pairs with the
  opening backtick of the literal, which is then left untagged.\<close>

lemma unreached_literal:
  "\<not> reaches string_re None (escapeHtml (js ''// '' @ [backtick, 10, backtick] @ js ''a/b'' @ [backtick]))
       (length (escapeHtml (js ''// '' @ [backtick, 10])))
   \<and> string_pass (escapeHtml (js ''// '' @ [backtick, 10, backtick] @ js ''a/b'' @ [backtick])) =
       js ''&#x2F;&#x2F; '' @ span_open (js ''text-green-400'') @ [backtick, 10, backtick] @ span_close
         @ js ''a&#x2F;b'' @ [backtick]"
  by (simp add: string_pass_def highlight_eval)

subsection \<open>The loops end\<close>















subsection \<open>Evaluation of the specification's pipeline\<close>


section \<open>The claims\<close>

text \<open>
  Claim C1.  Round trip: stripping the inserted tags from \<open>highlightCode S\<close> and decoding
  the escape sequences gives \<open>S\<close> back.  The code does not do that: the function-name
  pass matches the white space between an identifier and the parenthesis and its template
  does not write it back.  For \<^verbatim>\<open>f (x)\<close> the output is the span of \<^verbatim>\<open>f\<close> followed by
  \<^verbatim>\<open>(x)\<close>, and the round trip gives \<^verbatim>\<open>f(x)\<close>.
\<close>

theorem round_trip_loses_space:
  "highlightCode (js ''f (x)'') = span_open (js ''text-yellow-400'') @ js ''f'' @ span_close @ js ''(x)''
   \<and> decodeHtml (strip_tags (highlightCode (js ''f (x)''))) = js ''f(x)''"
proof -
  have h: "highlightCode (js ''f (x)'') = span_open (js ''text-yellow-400'') @ js ''f'' @ span_close @ js ''(x)''"
    by (simp add: highlight_eval)
  have "decodeHtml (strip_tags (span_open (js ''text-yellow-400'') @ js ''f'' @ span_close @ js ''(x)'')) = js ''f(x)''"
    by (simp add: js_def span_open_def span_close_def tag_tokens_eval literal_eval)
  with h show ?thesis by simp
qed

text \<open>
  Claim C2.  Non-overlap: a keyword inside a string literal is not tagged.  The code
  does tag it: the guard only refuses a match inside a tag's angle brackets, not inside
  the text of a span.  For \<^verbatim>\<open>'return value'\<close> the keyword span of \<^verbatim>\<open>return\<close> stands inside
  the string span.
\<close>

theorem keyword_tagged_inside_string:
  "highlightCode ([squote] @ js ''return value'' @ [squote]) =
     span_open (js ''text-green-400'') @ js ''&#x27;''
       @ span_open (js ''text-purple-400'') @ js ''return'' @ span_close
       @ js '' value&#x27;'' @ span_close"
  by (simp add: highlight_eval)

text \<open>
  Claim C3.  Comment tagging: for the two lines \<^verbatim>\<open>// hello\<close> and \<^verbatim>\<open>const x = 5;\<close> the
  comment is wrapped in a comment span, \<^verbatim>\<open>const\<close> in a keyword span and \<^verbatim>\<open>5\<close> in a number
  span.  The code wraps \<^verbatim>\<open>const\<close> and \<^verbatim>\<open>5\<close>, and leaves the comment untagged: both
  slashes have been escaped before the comment passes look for them.
\<close>

theorem comment_not_tagged:
  "highlightCode (js ''// hello\<newline>const x = 5;'') =
     js ''&#x2F;&#x2F; hello\<newline>''
       @ span_open (js ''text-purple-400'') @ js ''const'' @ span_close
       @ js '' x = ''
       @ span_open (js ''text-orange-400'') @ js ''5'' @ span_close @ js '';''"
  by (simp add: highlight_eval)

text \<open>
  Claim C4.  No raw angle bracket leaks: the escaped text that enters the tagging passes
  contains neither \<^verbatim>\<open><\<close> nor \<^verbatim>\<open>>\<close>, and once the inserted tag tokens are removed from
  the output of \<open>highlightCode\<close> no \<^verbatim>\<open><\<close> or \<^verbatim>\<open>>\<close> is left: every angle bracket of the
  output belongs to the tagging markup.
\<close>

theorem no_raw_angle_brackets:
  "lt \<notin> set (escapeHtml s) \<and> gt \<notin> set (escapeHtml s)
   \<and> lt \<notin> set (strip_tags (highlightCode s)) \<and> gt \<notin> set (strip_tags (highlightCode s))"
  using escapeHtml_plain[of s] balanced_strip_plain[OF highlight_balanced, of s]
  by (auto simp: list_all_iff plain_def)

theorem no_raw_angle_brackets_witness:
  "lt \<notin> set (escapeHtml (js ''a<b>c''))
   \<and> gt \<notin> set (escapeHtml (js ''a<b>c''))
   \<and> lt \<notin> set (strip_tags (highlightCode (js ''a<b>c'')))
   \<and> gt \<notin> set (strip_tags (highlightCode (js ''a<b>c'')))"
  by (rule no_raw_angle_brackets)




text \<open>
  Claim C8.  Constructor calls: a capitalised identifier followed by a parenthesis ends up
  with the function-name category and not the class-name category.  In the code the
  call-site pass does run first, but the class-name pass then tags the identifier again
  inside the function-name span: for \<^verbatim>\<open>Foo()\<close> the class-name span is the inner one.
\<close>

theorem constructor_call_nested:
  "highlightCode (js ''Foo()'') =
     span_open (js ''text-yellow-400'')
       @ span_open (js ''text-blue-400'') @ js ''Foo'' @ span_close
       @ span_close @ js ''()''"
  by (simp add: highlight_eval)

text \<open>
  Claim C9.  Tag well-formedness: in the output of \<open>highlightCode\<close> every angle bracket
  belongs to one of the nine tag tokens, and the tags are balanced and properly nested;
  the guarded passes copy every tag token as it is, whatever stands around it, and the
  passes without the guard (comments and strings) work on the escaped text, which has no
  tag: the comment passes leave it as it is.
\<close>

theorem tags_well_formed:
  "balanced 0 (highlightCode s)
   \<and> (\<forall>re\<in>set guarded_passes. \<forall>t\<in>set tag_tokens.
         replace_global re f prev (t @ rest) = t @ replace_global re f (Some gt) rest)
   \<and> lt \<notin> set (escapeHtml s) \<and> gt \<notin> set (escapeHtml s)
   \<and> replace_global line_comment_re f1 p1 (escapeHtml s) = escapeHtml s
   \<and> replace_global block_comment_re f2 p2 (escapeHtml s) = escapeHtml s"
  using highlight_balanced[of s] escapeHtml_set[of _ s]
    comment_pass_id[OF escapeHtml_no_slash]
  by (auto simp: replace_skip_tag[OF guarded_passes_guarded])

theorem tags_well_formed_witness:
  "balanced 0 (highlightCode (js ''class A''))
   \<and> replace_global keywordRegex (span (js ''text-purple-400'') []) None
         (span_open (js ''text-green-400'') @ js ''class'')
       = span_open (js ''text-green-400'')
           @ replace_global keywordRegex (span (js ''text-purple-400'') []) (Some gt) (js ''class'')
   \<and> lt \<notin> set (escapeHtml (js ''class A'')) \<and> gt \<notin> set (escapeHtml (js ''class A''))
   \<and> replace_global line_comment_re (span (js ''text-gray-500 italic'') []) None (escapeHtml (js ''class A''))
       = escapeHtml (js ''class A'')
   \<and> replace_global block_comment_re (span (js ''text-gray-500 italic'') []) None (escapeHtml (js ''class A''))
       = escapeHtml (js ''class A'')"
  using tags_well_formed[of "js ''class A''" "span (js ''text-purple-400'') []" None "js ''class''"
      "span (js ''text-gray-500 italic'') []" None "span (js ''text-gray-500 italic'') []" None]
  by (simp add: guarded_passes_def tag_tokens_def open_tags_def categories_def)

text \<open>
  Claim C10, as stated: a quoted literal whose contents include one of the six escaped
  characters is left untagged by the string pass.  It fails when that character is the
  literal's own delimiter: in \<^verbatim>\<open>"a\"b"\<close> the pass tags \<^verbatim>\<open>"a\"\<close>.
\<close>

theorem escaped_quote_tagged:
  "string_pass (escapeHtml ([dquote] @ js ''a'' @ [92, dquote] @ js ''b'' @ [dquote])) =
     span_open (js ''text-green-400'') @ js ''&quot;a'' @ [92] @ js ''&quot;'' @ span_close
       @ js ''b&quot;''"
  by (simp add: string_pass_def highlight_eval)

text \<open>
  Claim C10, amended.  Take a double-quoted or single-quoted literal whose contents
  include one of the six escaped characters, and whose opening delimiter the scan of the
  string pass comes to (the delimiter does not lie inside a match that began before it).
  The literal is never tagged as a whole: the text before it is passed on with tags
  added at most, and at the opening delimiter either no span opens, the \<^verbatim>\<open>&\<close> of the
  delimiter being copied and the scan going on behind it, or, when the first escaped
  character of the contents is the literal's own delimiter, a span opens that ends at
  that character, before the end of the literal.  A backtick-delimited literal whose
  contents have no backtick, and whose opening backtick the scan comes to, is tagged as
  a whole, whatever else it contains.
\<close>

theorem string_pass_gap:
  "((\<exists>x\<in>set c. is_special x) \<and> (q = dquote \<or> q = squote)
      \<and> reaches string_re None (escapeHtml (pre @ [q] @ c @ [q] @ post)) (length (escapeHtml pre))
    \<longrightarrow>
      (\<exists>X. strip_tags X = escapeHtml pre
         \<and> string_pass (escapeHtml (pre @ [q] @ c @ [q] @ post)) =
             X @ (if find is_special c = Some q
                  then span_open (js ''text-green-400'')
                         @ escape_unit q @ takeWhile (\<lambda>x. \<not> is_special x) c @ escape_unit q
                         @ span_close
                         @ string_pass (drop (12 + length (takeWhile (\<lambda>x. \<not> is_special x) c))
                                         (escapeHtml ([q] @ c @ [q] @ post)))
                  else amp # string_pass (drop 1 (escapeHtml ([q] @ c @ [q] @ post)))))
      \<and> 12 + length (takeWhile (\<lambda>x. \<not> is_special x) c) < length (escapeHtml ([q] @ c @ [q])))
   \<and> (backtick \<notin> set c
      \<and> reaches string_re None (escapeHtml (pre @ [backtick] @ c @ [backtick] @ post))
            (length (escapeHtml pre))
    \<longrightarrow>
      (\<exists>X. strip_tags X = escapeHtml pre
         \<and> string_pass (escapeHtml (pre @ [backtick] @ c @ [backtick] @ post)) =
             X @ span_open (js ''text-green-400'') @ escapeHtml ([backtick] @ c @ [backtick])
               @ span_close @ string_pass (escapeHtml post)))"
proof (intro conjI impI; (elim conjE)?)
  assume c: "\<exists>x\<in>set c. is_special x" and q: "q = dquote \<or> q = squote"
    and r: "reaches string_re None (escapeHtml (pre @ [q] @ c @ [q] @ post)) (length (escapeHtml pre))"
  let ?L = "escape_unit q @ escapeHtml c @ escape_unit q @ escapeHtml post"
  have L: "escapeHtml ([q] @ c @ [q] @ post) = ?L" using escapeHtml_literal[of "[]" q c post] by (simp add: escapeHtml_Nil)
  have S: "escapeHtml (pre @ [q] @ c @ [q] @ post) = escapeHtml pre @ ?L" by (rule escapeHtml_literal)
  have pl: "list_all plain ?L" unfolding L[symmetric] by (rule escapeHtml_plain)
  from string_pass_reaches[OF r[unfolded S] pl] obtain X where
    X: "string_pass (escapeHtml pre @ ?L)
          = X @ replace_global string_re (span (js ''text-green-400'') [])
                  (before None (escapeHtml pre @ ?L) (length (escapeHtml pre))) ?L"
    and sX: "strip_tags X = escapeHtml pre" by blast
  show "\<exists>X. strip_tags X = escapeHtml pre
         \<and> string_pass (escapeHtml (pre @ [q] @ c @ [q] @ post)) =
             X @ (if find is_special c = Some q
                  then span_open (js ''text-green-400'')
                         @ escape_unit q @ takeWhile (\<lambda>x. \<not> is_special x) c @ escape_unit q
                         @ span_close
                         @ string_pass (drop (12 + length (takeWhile (\<lambda>x. \<not> is_special x) c))
                                         (escapeHtml ([q] @ c @ [q] @ post)))
                  else amp # string_pass (drop 1 (escapeHtml ([q] @ c @ [q] @ post))))"
    unfolding S L using sX X[unfolded string_pass_at_quoted[OF c q]] by blast
  have "length (escape_unit q) = 6" using q by (auto simp: escape_unit_quotes js_def)
  then show "12 + length (takeWhile (\<lambda>x. \<not> is_special x) c) < length (escapeHtml ([q] @ c @ [q]))"
    using string_re_quoted(3)[OF c] escapeHtml_literal[of "[]" q c "[]"]
    by (simp add: escapeHtml_Nil)
next
  assume c: "backtick \<notin> set c"
    and r: "reaches string_re None (escapeHtml (pre @ [backtick] @ c @ [backtick] @ post))
              (length (escapeHtml pre))"
  let ?L = "[backtick] @ escapeHtml c @ [backtick] @ escapeHtml post"
  have S: "escapeHtml (pre @ [backtick] @ c @ [backtick] @ post) = escapeHtml pre @ ?L"
    using escapeHtml_literal[of pre backtick c post] by (simp add: escape_unit_quotes)
  have E: "escapeHtml ([backtick] @ c @ [backtick]) = [backtick] @ escapeHtml c @ [backtick]"
    using escapeHtml_literal[of "[]" backtick c "[]"] by (simp add: escape_unit_quotes escapeHtml_Nil)
  have "list_all plain (escapeHtml ([backtick] @ c @ [backtick] @ post))" by (rule escapeHtml_plain)
  then have pl: "list_all plain ?L"
    using escapeHtml_literal[of "[]" backtick c post] by (simp add: escape_unit_quotes escapeHtml_Nil)
  from string_pass_reaches[OF r[unfolded S] pl] obtain X where
    X: "string_pass (escapeHtml pre @ ?L)
          = X @ replace_global string_re (span (js ''text-green-400'') [])
                  (before None (escapeHtml pre @ ?L) (length (escapeHtml pre))) ?L"
    and sX: "strip_tags X = escapeHtml pre" by blast
  show "\<exists>X. strip_tags X = escapeHtml pre
         \<and> string_pass (escapeHtml (pre @ [backtick] @ c @ [backtick] @ post)) =
             X @ span_open (js ''text-green-400'') @ escapeHtml ([backtick] @ c @ [backtick])
               @ span_close @ string_pass (escapeHtml post)"
    unfolding S E using sX X[unfolded string_pass_at_backtick[OF c]] by auto
qed

theorem string_pass_gap_witness:
  "(\<exists>x\<in>set (js ''a/b''). is_special x)
   \<and> reaches string_re None (escapeHtml (js ''x = '' @ [dquote] @ js ''a/b'' @ [dquote] @ js '';''))
         (length (escapeHtml (js ''x = '')))
   \<and> (\<exists>X. strip_tags X = escapeHtml (js ''x = '')
         \<and> string_pass (escapeHtml (js ''x = '' @ [dquote] @ js ''a/b'' @ [dquote] @ js '';'')) =
             X @ amp # string_pass (drop 1 (escapeHtml ([dquote] @ js ''a/b'' @ [dquote] @ js '';''))))
   \<and> backtick \<notin> set (js ''a/b'')
   \<and> reaches string_re None (escapeHtml (js ''x = '' @ [backtick] @ js ''a/b'' @ [backtick] @ js '';''))
         (length (escapeHtml (js ''x = '')))
   \<and> (\<exists>X. strip_tags X = escapeHtml (js ''x = '')
         \<and> string_pass (escapeHtml (js ''x = '' @ [backtick] @ js ''a/b'' @ [backtick] @ js '';'')) =
             X @ span_open (js ''text-green-400'') @ escapeHtml ([backtick] @ js ''a/b'' @ [backtick])
               @ span_close @ string_pass (escapeHtml (js '';'')))"
proof -
  have h: "\<exists>x\<in>set (js ''a/b''). is_special x" by (simp add: js_def is_special_def)
  have b: "backtick \<notin> set (js ''a/b'')" by (simp add: js_def)
  have f: "find is_special (js ''a/b'') \<noteq> Some dquote" by (simp add: js_def is_special_def)
  have r1: "reaches string_re None (escapeHtml (js ''x = '' @ [dquote] @ js ''a/b'' @ [dquote] @ js '';''))
         (length (escapeHtml (js ''x = '')))"
    by (simp add: highlight_eval)
  have r2: "reaches string_re None (escapeHtml (js ''x = '' @ [backtick] @ js ''a/b'' @ [backtick] @ js '';''))
         (length (escapeHtml (js ''x = '')))"
    by (simp add: highlight_eval)
  from string_pass_gap[of "js ''a/b''" dquote "js ''x = ''" "js '';''"] h b f r1 r2
  show ?thesis by simp
qed

end
